theory Spec2Isabelle
  imports Complex_Main "HOL-Library.Sublist"
begin

unbundle bit_operations_syntax

section \<open>TEASAR skeletonization: the data model\<close>

text \<open>
  The model follows \<^verbatim>\<open>igneous/tasks/skeletonization/skeletonization.py\<close>.
  A voxel is a triple of array indices. A path is the list of the rows of an
  \<open>(n, 3)\<close> index array. The \<open>float32\<close> fields (DBF, DAF, PDRF) are
  idealised as fields of real numbers: rounding, infinities and NaN are not
  represented.
\<close>

type_synonym voxel = "nat \<times> nat \<times> nat"

type_synonym anisotropy = "real \<times> real \<times> real"

text \<open>The exceptions the Python code can raise, as values.\<close>

datatype error =
    ZeroSizeReduction    \<comment> \<open>ValueError of np.max / np.argmax on an array without elements\<close>
  | SliceStepZero        \<comment> \<open>ValueError: slice step cannot be zero\<close>
  | IndexError
  | KeyError
  | EmptyMask            \<comment> \<open>failure of a traversal helper whose source voxel is not in the mask\<close>

subsection \<open>Python slices\<close>

text \<open>
  Slicing a sequence of length \<open>len\<close> with \<open>[start:stop:step]\<close>: the bounds
  are adjusted as CPython's \<^verbatim>\<open>PySlice_AdjustIndices\<close> does, and the slice
  holds the elements at \<open>start + i * step\<close> for \<open>i\<close> below the slice length.
\<close>

definition adjust_index :: "int \<Rightarrow> int \<Rightarrow> int \<Rightarrow> int" where
  "adjust_index len step i =
     (if i < 0 then (if i + len < 0 then (if step < 0 then -1 else 0) else i + len)
      else if len \<le> i then (if step < 0 then len - 1 else len)
      else i)"

definition slice_length :: "int \<Rightarrow> int \<Rightarrow> int \<Rightarrow> nat" where
  "slice_length start stop step =
     (if step < 0 then (if stop < start then nat ((start - stop - 1) div (- step) + 1) else 0)
      else (if start < stop then nat ((stop - start - 1) div step + 1) else 0))"

definition py_slice :: "'a list \<Rightarrow> int option \<Rightarrow> int option \<Rightarrow> int option \<Rightarrow> error + 'a list" where
  "py_slice xs start stop step =
     (let len = int (length xs);
          st = (case step of None \<Rightarrow> 1 | Some s \<Rightarrow> s)
      in if st = 0 then Inl SliceStepZero
         else
           let a = (case start of None \<Rightarrow> (if st < 0 then len - 1 else 0)
                                 | Some i \<Rightarrow> adjust_index len st i);
               b = (case stop of None \<Rightarrow> (if st < 0 then -1 else len)
                                | Some i \<Rightarrow> adjust_index len st i)
           in Inr (map (\<lambda>i. xs ! nat (a + int i * st)) [0..<slice_length a b st]))"

subsection \<open>Downsampling of the extracted paths (TEASAR, lines 107-112)\<close>

text \<open>
  \<^verbatim>\<open>paths[i] = np.concatenate((path[0:-2:path_downsample, :], path[-1:, :]))\<close>
\<close>

definition downsample :: "int \<Rightarrow> voxel list \<Rightarrow> error + voxel list" where
  "downsample path_downsample path =
     (case py_slice path (Some 0) (Some (- 2)) (Some path_downsample) of
        Inl e \<Rightarrow> Inl e
      | Inr strided \<Rightarrow>
          (case py_slice path (Some (- 1)) None None of
             Inl e \<Rightarrow> Inl e
           | Inr lastrow \<Rightarrow> Inr (strided @ lastrow)))"

subsection \<open>Soma suppression (compute\_paths, lines 146-151)\<close>

text \<open>
  \<^verbatim>\<open>dist_to_soma_root = np.linalg.norm(anisotropy * (path - root), axis=1)\<close>,
  one row at a time. The difference is taken in signed integers.
\<close>

fun dist_to_soma_root :: "anisotropy \<Rightarrow> voxel \<Rightarrow> voxel \<Rightarrow> real" where
  "dist_to_soma_root (ax, ay, az) (rx, ry, rz) (x, y, z) =
     sqrt ((ax * real_of_int (int x - int rx))\<^sup>2
         + (ay * real_of_int (int y - int ry))\<^sup>2
         + (az * real_of_int (int z - int rz))\<^sup>2)"

text \<open>
  \<^verbatim>\<open>path = np.concatenate((path[:1,:], path[dist_to_soma_root > soma_radius, :]))\<close>
\<close>

definition soma_suppression :: "anisotropy \<Rightarrow> voxel \<Rightarrow> real \<Rightarrow> voxel list \<Rightarrow> voxel list" where
  "soma_suppression anisotropy root_v soma_radius path =
     take 1 path @ filter (\<lambda>v. soma_radius < dist_to_soma_root anisotropy root_v v) path"

subsection \<open>Dense 3D arrays\<close>

text \<open>
  A NumPy array of three dimensions: its shape and its cells. Only the cells
  inside the shape are ever read. The flattened view lists the cells in
  C order, as \<^verbatim>\<open>np.argmax\<close> and \<^verbatim>\<open>np.unravel_index\<close> number them.
\<close>

record 'a array3 =
  shape :: "nat \<times> nat \<times> nat"
  cell :: "voxel \<Rightarrow> 'a"

fun size3 :: "nat \<times> nat \<times> nat \<Rightarrow> nat" where
  "size3 (sx, sy, sz) = sx * sy * sz"

fun unravel_index :: "nat \<Rightarrow> nat \<times> nat \<times> nat \<Rightarrow> voxel" where
  "unravel_index i (sx, sy, sz) = (i div (sy * sz), (i div sz) mod sy, i mod sz)"

fun in_bounds :: "nat \<times> nat \<times> nat \<Rightarrow> voxel \<Rightarrow> bool" where
  "in_bounds (sx, sy, sz) (x, y, z) = (x < sx \<and> y < sy \<and> z < sz)"

text \<open>The C-order number of a voxel (the inverse of \<open>unravel_index\<close> inside the shape).\<close>

fun ravel :: "nat \<times> nat \<times> nat \<Rightarrow> voxel \<Rightarrow> nat" where
  "ravel (sx, sy, sz) (x, y, z) = (x * sy + y) * sz + z"

definition flat :: "'a array3 \<Rightarrow> 'a list" where
  "flat A = map (\<lambda>i. cell A (unravel_index i (shape A))) [0..<size3 (shape A)]"

definition count_nonzero :: "bool array3 \<Rightarrow> int" where
  "count_nonzero labels = int (length (filter (\<lambda>b. b) (flat labels)))"

definition np_max :: "real array3 \<Rightarrow> error + real" where
  "np_max A = (case flat A of [] \<Rightarrow> Inl ZeroSizeReduction | x # xs \<Rightarrow> Inr (fold max xs x))"

text \<open>The index of the first occurrence of the maximum, scanning from the left.\<close>

fun argmax_scan :: "real list \<Rightarrow> nat \<Rightarrow> nat \<Rightarrow> real \<Rightarrow> nat" where
  "argmax_scan [] i best_i best = best_i"
| "argmax_scan (y # ys) i best_i best =
     (if best < y then argmax_scan ys (Suc i) i y else argmax_scan ys (Suc i) best_i best)"

definition np_argmax :: "real array3 \<Rightarrow> error + nat" where
  "np_argmax A = (case flat A of [] \<Rightarrow> Inl ZeroSizeReduction | x # xs \<Rightarrow> Inr (argmax_scan xs 1 0 x))"

definition map_array3 :: "('a \<Rightarrow> 'b) \<Rightarrow> 'a array3 \<Rightarrow> 'b array3" where
  "map_array3 f A = \<lparr>shape = shape A, cell = (\<lambda>v. f (cell A v))\<rparr>"

subsection \<open>The skeleton container\<close>

text \<open>
  \<^verbatim>\<open>PrecomputedSkeleton(vertices, edges, radii)\<close> of cloudvolume; without
  arguments it is the empty skeleton.
\<close>

record skeleton =
  sk_vertices :: "(real \<times> real \<times> real) list"
  sk_edges :: "(nat \<times> nat) list"
  sk_radii :: "real list"

definition empty_skeleton :: skeleton where
  "empty_skeleton = \<lparr>sk_vertices = [], sk_edges = [], sk_radii = []\<rparr>"

subsection \<open>The compiled helpers\<close>

text \<open>
  The modules \<^verbatim>\<open>igneous.dijkstra\<close> and \<^verbatim>\<open>igneous.skeletontricks\<close>, and
  the libraries \<^verbatim>\<open>edt\<close> and \<^verbatim>\<open>scipy.ndimage\<close>, are compiled code
  outside the Python source. The model takes them as parameters: a record of
  the functions TEASAR calls, with the argument order of the calls. The
  type \<open>'p\<close> is the representation of the parents field. The two traversals can
  fail (on a source voxel outside the mask).
\<close>

record 'p helpers =
  binary_fill_holes :: "bool array3 \<Rightarrow> bool array3"
  edt :: "bool array3 \<Rightarrow> anisotropy \<Rightarrow> real array3"
  first_label :: "bool array3 \<Rightarrow> voxel option"
  find_target :: "bool array3 \<Rightarrow> real array3 \<Rightarrow> voxel"
  euclidean_distance_field :: "bool array3 \<Rightarrow> voxel \<Rightarrow> anisotropy \<Rightarrow> error + real array3"
  parental_field :: "real array3 \<Rightarrow> voxel \<Rightarrow> error + 'p"
  path_from_parents :: "'p \<Rightarrow> voxel \<Rightarrow> voxel list"
  roll_invalidation_ball ::
    "bool array3 \<Rightarrow> real array3 \<Rightarrow> voxel list \<Rightarrow> real \<Rightarrow> real \<Rightarrow> anisotropy \<Rightarrow> int \<times> bool array3"
  roll_invalidation_cube ::
    "bool array3 \<Rightarrow> real array3 \<Rightarrow> voxel list \<Rightarrow> real \<Rightarrow> real \<Rightarrow> anisotropy \<Rightarrow> voxel set
       \<Rightarrow> int \<times> bool array3"

subsection \<open>find\_root (lines 166-179)\<close>

definition find_root :: "'p helpers \<Rightarrow> bool array3 \<Rightarrow> anisotropy \<Rightarrow> error + voxel option" where
  "find_root h labels anisotropy =
     (case first_label h labels of
        None \<Rightarrow> Inr None
      | Some any_voxel \<Rightarrow>
          (case euclidean_distance_field h labels any_voxel anisotropy of
             Inl e \<Rightarrow> Inl e
           | Inr DAF \<Rightarrow> Inr (Some (find_target h labels DAF))))"

subsection \<open>compute\_pdrf (lines 181-215)\<close>

text \<open>
  \<^verbatim>\<open>is_power_of_two\<close> on an integer argument (the exponent is an integer
  here, so the first test, \<^verbatim>\<open>int(num) != num\<close>, never fires).
\<close>

definition is_power_of_two :: "int \<Rightarrow> bool" where
  "is_power_of_two num = (num \<noteq> 0 \<and> (num AND (num - 1)) = 0)"

text \<open>
  \<^verbatim>\<open>int(np.log2(pdrf_exponent))\<close>: the integer part of the binary logarithm of
  a positive integer.
\<close>

fun ilog2 :: "nat \<Rightarrow> nat" where
  "ilog2 n = (if n < 2 then 0 else Suc (ilog2 (n div 2)))"

text \<open>\<^verbatim>\<open>for _ in range(k): PDRF *= PDRF\<close>\<close>

primrec square_loop :: "nat \<Rightarrow> real array3 \<Rightarrow> real array3" where
  "square_loop 0 PDRF = PDRF"
| "square_loop (Suc k) PDRF = square_loop k (map_array3 (\<lambda>p. p * p) PDRF)"

definition compute_pdrf :: "real \<Rightarrow> real \<Rightarrow> int \<Rightarrow> real array3 \<Rightarrow> real array3 \<Rightarrow> real array3" where
  "compute_pdrf dbf_max pdrf_scale pdrf_exponent DBF DAF =
     (let M = 1 / (dbf_max powr (101 / 100));
          PDRF0 = map_array3 (\<lambda>d. 1 - d * M) DBF;
          PDRF1 = (if is_power_of_two pdrf_exponent \<and> pdrf_exponent < 2 ^ 16
                   then square_loop (ilog2 (nat pdrf_exponent)) PDRF0
                   else map_array3 (\<lambda>b. b powi pdrf_exponent) PDRF0);
          PDRF2 = map_array3 (\<lambda>p. p * pdrf_scale) PDRF1
      in \<lparr>shape = shape PDRF2, cell = (\<lambda>v. cell PDRF2 v + cell DAF v)\<rparr>)"

subsection \<open>compute\_paths (lines 122-164)\<close>

text \<open>
  The loop state: the working mask, the counter \<^verbatim>\<open>valid_labels\<close>, the keys of
  the dictionary \<^verbatim>\<open>invalid_vertices\<close>, and the list of paths.
\<close>

record cp_state =
  cp_labels :: "bool array3"
  valid_labels :: int
  invalid_vertices :: "voxel set"
  cp_paths :: "voxel list list"

text \<open>One iteration of the loop body (lines 143-162).\<close>

definition compute_paths_body ::
  "'p helpers \<Rightarrow> voxel \<Rightarrow> real array3 \<Rightarrow> real array3 \<Rightarrow> 'p \<Rightarrow> real \<Rightarrow> real \<Rightarrow> anisotropy
     \<Rightarrow> bool \<Rightarrow> real \<Rightarrow> cp_state \<Rightarrow> cp_state" where
  "compute_paths_body h root_v DBF PDRF parents scale const anisotropy soma_mode soma_radius st =
     (let target = find_target h (cp_labels st) PDRF;
          path0 = path_from_parents h parents target;
          path = (if soma_mode then soma_suppression anisotropy root_v soma_radius path0 else path0);
          (invalidated, labels) =
             roll_invalidation_cube h (cp_labels st) DBF path scale const anisotropy
               (invalid_vertices st)
      in \<lparr>cp_labels = labels,
          valid_labels = valid_labels st - invalidated,
          invalid_vertices = invalid_vertices st \<union> set path,
          cp_paths = cp_paths st @ [path]\<rparr>)"

text \<open>
  \<^verbatim>\<open>while valid_labels > 0\<close>, with fuel: the first argument bounds the number
  of iterations, and \<open>None\<close> says that the loop was still running when the fuel
  ran out.
\<close>

fun compute_paths_loop ::
  "nat \<Rightarrow> 'p helpers \<Rightarrow> voxel \<Rightarrow> real array3 \<Rightarrow> real array3 \<Rightarrow> 'p \<Rightarrow> real \<Rightarrow> real \<Rightarrow> anisotropy
     \<Rightarrow> bool \<Rightarrow> real \<Rightarrow> cp_state \<Rightarrow> voxel list list option" where
  "compute_paths_loop fuel h root_v DBF PDRF parents scale const anisotropy soma_mode soma_radius st =
     (if 0 < valid_labels st then
        (case fuel of
           0 \<Rightarrow> None
         | Suc fuel' \<Rightarrow>
             compute_paths_loop fuel' h root_v DBF PDRF parents scale const anisotropy soma_mode
               soma_radius
               (compute_paths_body h root_v DBF PDRF parents scale const anisotropy soma_mode
                  soma_radius st))
      else Some (cp_paths st))"

definition compute_paths_init :: "voxel \<Rightarrow> bool array3 \<Rightarrow> bool \<Rightarrow> cp_state" where
  "compute_paths_init root_v labels soma_mode =
     \<lparr>cp_labels = labels,
      valid_labels = count_nonzero labels,
      invalid_vertices = (if soma_mode then {root_v} else {}),
      cp_paths = []\<rparr>"

definition compute_paths ::
  "nat \<Rightarrow> 'p helpers \<Rightarrow> voxel \<Rightarrow> bool array3 \<Rightarrow> real array3 \<Rightarrow> real array3 \<Rightarrow> 'p \<Rightarrow> real \<Rightarrow> real
     \<Rightarrow> anisotropy \<Rightarrow> bool \<Rightarrow> real \<Rightarrow> voxel list list option" where
  "compute_paths fuel h root_v labels DBF PDRF parents scale const anisotropy soma_mode soma_radius =
     compute_paths_loop fuel h root_v DBF PDRF parents scale const anisotropy soma_mode soma_radius
       (compute_paths_init root_v labels soma_mode)"

subsection \<open>path\_union (lines 217-273)\<close>

text \<open>
  The dictionaries of the build loop: \<^verbatim>\<open>tree\<close> maps a voxel to its set of
  children (a \<^verbatim>\<open>defaultdict(set)\<close>: a missing key reads as the empty set, so
  \<^verbatim>\<open>tree[child] = set()\<close> for a missing key changes no reading), \<^verbatim>\<open>tree_id\<close>
  maps a voxel to its index in \<^verbatim>\<open>vertices\<close>. A set of children is kept as a
  list without repetitions, in the order of insertion; Python leaves the
  order in which a set is iterated open.
\<close>

type_synonym pu_state = "(voxel \<Rightarrow> voxel list) \<times> (voxel \<rightharpoonup> nat) \<times> voxel list \<times> nat"

text \<open>\<^verbatim>\<open>if not v in tree_id: tree_id[v] = ct; vertices.append(v); ct += 1\<close>\<close>

definition register_vertex :: "voxel \<Rightarrow> pu_state \<Rightarrow> pu_state" where
  "register_vertex v st =
     (case st of (tree, tree_id, vertices, ct) \<Rightarrow>
        (if tree_id v = None then (tree, tree_id(v \<mapsto> ct), vertices @ [v], ct + 1)
         else (tree, tree_id, vertices, ct)))"

text \<open>The body of the inner loop (lines 234-246).\<close>

definition add_link :: "voxel \<Rightarrow> voxel \<Rightarrow> pu_state \<Rightarrow> pu_state" where
  "add_link parent child st =
     (case st of (tree, tree_id, vertices, ct) \<Rightarrow>
        register_vertex child
          (register_vertex parent
             (tree(parent := (if child \<in> set (tree parent) then tree parent
                              else tree parent @ [child])),
              tree_id, vertices, ct)))"

definition add_path :: "voxel list \<Rightarrow> pu_state \<Rightarrow> pu_state" where
  "add_path path st = fold (\<lambda>i. add_link (path ! i) (path ! (i + 1))) [0..<length path - 1] st"

definition build_tree :: "voxel list list \<Rightarrow> pu_state" where
  "build_tree paths = fold add_path paths ((\<lambda>v. []), Map.empty, [], 0)"

text \<open>
  \<^verbatim>\<open>edges.append([ tree_id[parent], tree_id[child] ])\<close> for the children of one
  parent; a missing key raises KeyError.
\<close>

fun emit_edges :: "(voxel \<rightharpoonup> nat) \<Rightarrow> voxel \<Rightarrow> voxel list \<Rightarrow> error + (nat \<times> nat) list" where
  "emit_edges tree_id parent [] = Inr []"
| "emit_edges tree_id parent (child # children) =
     (case tree_id parent of
        None \<Rightarrow> Inl KeyError
      | Some p \<Rightarrow>
          (case tree_id child of
             None \<Rightarrow> Inl KeyError
           | Some c \<Rightarrow>
               (case emit_edges tree_id parent children of
                  Inl e \<Rightarrow> Inl e
                | Inr es \<Rightarrow> Inr ((p, c) # es))))"

text \<open>
  The traversal (lines 254-260), with fuel. The stack is a list whose head is
  the top: \<^verbatim>\<open>stack.pop()\<close> takes the head, and the children, appended one by
  one, end up reversed on top. \<open>None\<close> says that the stack was not yet empty
  when the fuel ran out.
\<close>

fun traverse ::
  "nat \<Rightarrow> (voxel \<Rightarrow> voxel list) \<Rightarrow> (voxel \<rightharpoonup> nat) \<Rightarrow> voxel list \<Rightarrow> (nat \<times> nat) list
     \<Rightarrow> (error + (nat \<times> nat) list) option" where
  "traverse fuel tree tree_id [] edges = Some (Inr edges)"
| "traverse 0 tree tree_id (parent # stack) edges = None"
| "traverse (Suc fuel) tree tree_id (parent # stack) edges =
     (case emit_edges tree_id parent (tree parent) of
        Inl e \<Rightarrow> Some (Inl e)
      | Inr es \<Rightarrow> traverse fuel tree tree_id (rev (tree parent) @ stack) (edges @ es))"

text \<open>The flat output arrays \<^verbatim>\<open>npv\<close> and \<^verbatim>\<open>npe\<close> (lines 262-271).\<close>

definition flatten_vertices :: "voxel list \<Rightarrow> nat list" where
  "flatten_vertices vertices = concat (map (\<lambda>(x, y, z). [x, y, z]) vertices)"

definition flatten_edges :: "(nat \<times> nat) list \<Rightarrow> nat list" where
  "flatten_edges edges = concat (map (\<lambda>(a, b). [a, b]) edges)"

definition path_union :: "nat \<Rightarrow> voxel list list \<Rightarrow> (error + nat list \<times> nat list) option" where
  "path_union fuel paths =
     (if length paths = 0 then Some (Inr ([], []))
      else
        (case build_tree paths of (tree, tree_id, vertices, ct) \<Rightarrow>
           (case paths ! 0 of
              [] \<Rightarrow> Some (Inl IndexError)
            | root_v # rest \<Rightarrow>
                (case traverse fuel tree tree_id [root_v] [] of
                   None \<Rightarrow> None
                 | Some (Inl e) \<Rightarrow> Some (Inl e)
                 | Some (Inr edges) \<Rightarrow>
                     Some (Inr (flatten_vertices vertices, flatten_edges edges))))))"

subsection \<open>TEASAR (lines 22-120)\<close>

text \<open>
  The reshaping of the flat outputs into rows (lines 117-118), and the radii
  \<^verbatim>\<open>DBF[skel_verts[::3], skel_verts[1::3], skel_verts[2::3]]\<close> (line 115),
  which raise IndexError on an index outside the array.
\<close>

definition rows3 :: "nat list \<Rightarrow> voxel list" where
  "rows3 xs = map (\<lambda>i. (xs ! (3 * i), xs ! (3 * i + 1), xs ! (3 * i + 2))) [0..<length xs div 3]"

definition rows2 :: "nat list \<Rightarrow> (nat \<times> nat) list" where
  "rows2 xs = map (\<lambda>i. (xs ! (2 * i), xs ! (2 * i + 1))) [0..<length xs div 2]"

fun lookup_all :: "real array3 \<Rightarrow> voxel list \<Rightarrow> error + real list" where
  "lookup_all DBF [] = Inr []"
| "lookup_all DBF (v # vs) =
     (if in_bounds (shape DBF) v then
        (case lookup_all DBF vs of Inl e \<Rightarrow> Inl e | Inr rs \<Rightarrow> Inr (cell DBF v # rs))
      else Inl IndexError)"

fun downsample_all :: "int \<Rightarrow> voxel list list \<Rightarrow> error + voxel list list" where
  "downsample_all path_downsample [] = Inr []"
| "downsample_all path_downsample (path # paths) =
     (case downsample path_downsample path of
        Inl e \<Rightarrow> Inl e
      | Inr p \<Rightarrow>
          (case downsample_all path_downsample paths of
             Inl e \<Rightarrow> Inl e
           | Inr ps \<Rightarrow> Inr (p # ps)))"

text \<open>Lines 107-120: from the extracted paths to the skeleton.\<close>

definition assemble :: "nat \<Rightarrow> real array3 \<Rightarrow> int \<Rightarrow> voxel list list \<Rightarrow> (error + skeleton) option" where
  "assemble fuel DBF path_downsample paths =
     (case downsample_all path_downsample paths of
        Inl e \<Rightarrow> Some (Inl e)
      | Inr paths' \<Rightarrow>
          (case path_union fuel paths' of
             None \<Rightarrow> None
           | Some (Inl e) \<Rightarrow> Some (Inl e)
           | Some (Inr (skel_verts, skel_edges)) \<Rightarrow>
               (case lookup_all DBF (rows3 skel_verts) of
                  Inl e \<Rightarrow> Some (Inl e)
                | Inr skel_radii \<Rightarrow>
                    Some (Inr \<lparr>sk_vertices = map (\<lambda>(x, y, z). (real x, real y, real z)) (rows3 skel_verts),
                               sk_edges = rows2 skel_edges,
                               sk_radii = skel_radii\<rparr>))))"

text \<open>
  Lines 61-79: the soma test and the choice of the root. The result is
  \<^verbatim>\<open>soma_mode\<close>, the mask and the DBF to go on with, \<^verbatim>\<open>dbf_max\<close>, the root
  (or \<open>None\<close>) and the soma radius. \<^verbatim>\<open>np.unravel_index(np.argmax(DBF), DBF.shape)\<close>
  is the voxel of the first maximum in C order.
\<close>

definition choose_root ::
  "'p helpers \<Rightarrow> bool array3 \<Rightarrow> real array3 \<Rightarrow> anisotropy \<Rightarrow> real \<Rightarrow> real \<Rightarrow> real
     \<Rightarrow> error + (bool \<times> bool array3 \<times> real array3 \<times> real \<times> voxel option \<times> real)" where
  "choose_root h labels DBF anisotropy soma_detection_threshold soma_invalidation_scale
     soma_invalidation_const =
     (case np_max DBF of
        Inl e \<Rightarrow> Inl e
      | Inr dbf_max \<Rightarrow>
          (if soma_detection_threshold < dbf_max then
             (let labels' = binary_fill_holes h labels;
                  DBF' = edt h labels' anisotropy
              in case np_max DBF' of
                   Inl e \<Rightarrow> Inl e
                 | Inr dbf_max' \<Rightarrow>
                     (case np_argmax DBF' of
                        Inl e \<Rightarrow> Inl e
                      | Inr i \<Rightarrow>
                          Inr (True, labels', DBF', dbf_max', Some (unravel_index i (shape DBF')),
                               dbf_max' * soma_invalidation_scale + soma_invalidation_const)))
           else
             (case find_root h labels anisotropy of
                Inl e \<Rightarrow> Inl e
              | Inr r \<Rightarrow> Inr (False, labels, DBF, dbf_max, r, 0))))"

text \<open>
  Lines 84-120: the fields, the parents, the soma invalidation, the path
  extraction and the assembly, from the chosen root on. The fuel bounds each
  of the two loops (path extraction and tree traversal); \<open>None\<close> says that
  one of them was still running.
\<close>

definition extract_skeleton ::
  "nat \<Rightarrow> 'p helpers \<Rightarrow> bool \<Rightarrow> bool array3 \<Rightarrow> real array3 \<Rightarrow> real \<Rightarrow> voxel \<Rightarrow> real \<Rightarrow> real \<Rightarrow> real
     \<Rightarrow> anisotropy \<Rightarrow> real \<Rightarrow> int \<Rightarrow> real \<Rightarrow> real \<Rightarrow> int \<Rightarrow> (error + skeleton) option" where
  "extract_skeleton fuel h soma_mode labels DBF dbf_max root_v soma_radius scale const anisotropy
     pdrf_scale pdrf_exponent soma_invalidation_scale soma_invalidation_const path_downsample =
     (case euclidean_distance_field h labels root_v anisotropy of
        Inl e \<Rightarrow> Some (Inl e)
      | Inr DAF \<Rightarrow>
          (let PDRF = compute_pdrf dbf_max pdrf_scale pdrf_exponent DBF DAF in
           case parental_field h PDRF root_v of
             Inl e \<Rightarrow> Some (Inl e)
           | Inr parents \<Rightarrow>
               (let labels2 =
                      (if soma_mode then
                         snd (roll_invalidation_ball h labels DBF [root_v]
                                soma_invalidation_scale soma_invalidation_const anisotropy)
                       else labels)
                in case compute_paths fuel h root_v labels2 DBF PDRF parents scale const
                          anisotropy soma_mode soma_radius of
                     None \<Rightarrow> None
                   | Some paths \<Rightarrow> assemble fuel DBF path_downsample paths)))"

text \<open>The whole function.\<close>

definition TEASAR ::
  "nat \<Rightarrow> 'p helpers \<Rightarrow> bool array3 \<Rightarrow> real array3 \<Rightarrow> real \<Rightarrow> real \<Rightarrow> anisotropy \<Rightarrow> real \<Rightarrow> real
     \<Rightarrow> int \<Rightarrow> real \<Rightarrow> real \<Rightarrow> int \<Rightarrow> (error + skeleton) option" where
  "TEASAR fuel h labels DBF scale const anisotropy soma_detection_threshold pdrf_scale pdrf_exponent
     soma_invalidation_scale soma_invalidation_const path_downsample =
     (case choose_root h labels DBF anisotropy soma_detection_threshold
             soma_invalidation_scale soma_invalidation_const of
        Inl e \<Rightarrow> Some (Inl e)
      | Inr (soma_mode, labels1, DBF1, dbf_max, None, soma_radius) \<Rightarrow> Some (Inr empty_skeleton)
      | Inr (soma_mode, labels1, DBF1, dbf_max, Some root_v, soma_radius) \<Rightarrow>
          extract_skeleton fuel h soma_mode labels1 DBF1 dbf_max root_v soma_radius scale const
            anisotropy pdrf_scale pdrf_exponent soma_invalidation_scale soma_invalidation_const
            path_downsample)"

section \<open>Stand-ins for the compiled helpers, and concrete inputs\<close>

text \<open>
  Concrete instances of the theorems below need concrete helpers. The
  stand-in \<open>stand_in t path\<close> always selects the voxel \<open>t\<close> as target, returns
  \<open>path\<close> as the path to any target, and invalidates exactly the voxels of
  the path that are in the mask and not marked invalid. Its hole filling is
  the identity, its distance transform is 1 inside the mask and 0 outside,
  and its traversals fail on a source outside the mask.
\<close>

definition clear_voxels :: "bool array3 \<Rightarrow> voxel list \<Rightarrow> voxel set \<Rightarrow> int \<times> bool array3" where
  "clear_voxels labels path skip =
     (int (length (remdups (filter (\<lambda>v. in_bounds (shape labels) v \<and> cell labels v \<and> v \<notin> skip) path))),
      \<lparr>shape = shape labels, cell = (\<lambda>v. cell labels v \<and> \<not> (v \<in> set path \<and> v \<notin> skip))\<rparr>)"

definition stand_in :: "voxel \<Rightarrow> voxel list \<Rightarrow> unit helpers" where
  "stand_in t path =
     \<lparr>binary_fill_holes = (\<lambda>labels. labels),
      edt = (\<lambda>labels anisotropy. map_array3 (\<lambda>b. if b then 1 else 0) labels),
      first_label = (\<lambda>labels. if in_bounds (shape labels) t \<and> cell labels t then Some t else None),
      find_target = (\<lambda>labels F. t),
      euclidean_distance_field =
        (\<lambda>labels source anisotropy.
           if cell labels source then Inr (map_array3 (\<lambda>b. 0) labels) else Inl EmptyMask),
      parental_field = (\<lambda>F source. Inr ()),
      path_from_parents = (\<lambda>parents target. path),
      roll_invalidation_ball = (\<lambda>labels DBF vs scale const anisotropy. clear_voxels labels vs {}),
      roll_invalidation_cube =
        (\<lambda>labels DBF path scale const anisotropy invalid. clear_voxels labels path invalid)\<rparr>"

text \<open>A field of zeros and a mask without voxels, of a given shape.\<close>

definition zeros :: "nat \<times> nat \<times> nat \<Rightarrow> real array3" where
  "zeros s = \<lparr>shape = s, cell = (\<lambda>v. 0)\<rparr>"

definition no_voxels :: "nat \<times> nat \<times> nat \<Rightarrow> bool array3" where
  "no_voxels s = \<lparr>shape = s, cell = (\<lambda>v. False)\<rparr>"




text \<open>A small object whose DBF exceeds the default soma threshold.\<close>

definition soma_labels :: "bool array3" where
  "soma_labels = \<lparr>shape = (1, 1, 3), cell = (\<lambda>v. v = (0, 0, 1) \<or> v = (0, 0, 2))\<rparr>"

definition soma_DBF :: "real array3" where
  "soma_DBF = \<lparr>shape = (1, 1, 3), cell = (\<lambda>v. if v = (0, 0, 1) \<or> v = (0, 0, 2) then 6000 else 0)\<rparr>"

text \<open>The mask with a single voxel, and its DBF: 1 at the voxel, 0 elsewhere.\<close>

definition one_voxel :: "nat \<times> nat \<times> nat \<Rightarrow> voxel \<Rightarrow> bool array3" where
  "one_voxel s t = \<lparr>shape = s, cell = (\<lambda>v. v = t)\<rparr>"

definition one_voxel_DBF :: "nat \<times> nat \<times> nat \<Rightarrow> voxel \<Rightarrow> real array3" where
  "one_voxel_DBF s t = \<lparr>shape = s, cell = (\<lambda>v. if v = t then 1 else 0)\<rparr>"









section \<open>Auxiliary notions for path\_union\<close>

text \<open>
  The pairs of consecutive vertices of the paths, in the order in which the
  build loop of path\_union visits them.
\<close>

definition links :: "voxel list list \<Rightarrow> (voxel \<times> voxel) list" where
  "links paths = concat (map (\<lambda>path. zip path (tl path)) paths)"

text \<open>The parent-child relation that a \<^verbatim>\<open>tree\<close> dictionary holds.\<close>

definition tree_rel :: "(voxel \<Rightarrow> voxel list) \<Rightarrow> (voxel \<times> voxel) set" where
  "tree_rel tree = {(p, c). c \<in> set (tree p)}"

text \<open>
  The traversal of path\_union on the voxels themselves, before they are
  replaced by their numbers: the same loop, collecting pairs of voxels.
\<close>

fun walk ::
  "nat \<Rightarrow> (voxel \<Rightarrow> voxel list) \<Rightarrow> voxel list \<Rightarrow> (voxel \<times> voxel) list \<Rightarrow> (voxel \<times> voxel) list option" where
  "walk fuel tree [] edges = Some edges"
| "walk 0 tree (parent # stack) edges = None"
| "walk (Suc fuel) tree (parent # stack) edges =
     walk fuel tree (rev (tree parent) @ stack) (edges @ map (Pair parent) (tree parent))"

text \<open>No vertex has two different parents.\<close>

definition single_parent :: "('a \<times> 'a) set \<Rightarrow> bool" where
  "single_parent G = (\<forall>p p' c. (p, c) \<in> G \<and> (p', c) \<in> G \<longrightarrow> p = p')"

text \<open>
  The invariant of the traversal on a forest: the stack has no repetitions,
  the vertices on it have disjoint sets of descendants, and no cycle is
  reachable from it.
\<close>

definition forest_stack :: "(voxel \<times> voxel) set \<Rightarrow> voxel list \<Rightarrow> bool" where
  "forest_stack G stack =
     (distinct stack
      \<and> (\<forall>s\<in>set stack. \<forall>t\<in>set stack. s \<noteq> t \<longrightarrow> G\<^sup>* `` {s} \<inter> G\<^sup>* `` {t} = {})
      \<and> (\<forall>x\<in>G\<^sup>* `` set stack. (x, x) \<notin> G\<^sup>+))"

text \<open>
  The invariant of the build loop, after the pairs \<open>L\<close>: \<^verbatim>\<open>ct\<close> is the number
  of vertices, no vertex is listed twice, \<^verbatim>\<open>tree_id\<close> is the position in
  \<^verbatim>\<open>vertices\<close>, the vertices are the end points of the pairs, and \<^verbatim>\<open>tree\<close>
  holds the children.
\<close>

definition tree_inv :: "(voxel \<times> voxel) list \<Rightarrow> pu_state \<Rightarrow> bool" where
  "tree_inv L st =
     (case st of (tree, tree_id, vertices, ct) \<Rightarrow>
        ct = length vertices \<and> distinct vertices
        \<and> (\<forall>v i. tree_id v = Some i \<longleftrightarrow> i < length vertices \<and> vertices ! i = v)
        \<and> set vertices = fst ` set L \<union> snd ` set L
        \<and> (\<forall>v. distinct (tree v) \<and> set (tree v) = {c. (v, c) \<in> set L}))"

text \<open>The numbers of the two ends of an edge.\<close>

definition edge_ids :: "(voxel \<rightharpoonup> nat) \<Rightarrow> voxel \<times> voxel \<Rightarrow> nat \<times> nat" where
  "edge_ids tree_id e = (the (tree_id (fst e)), the (tree_id (snd e)))"

text \<open>Five voxels in a row.\<close>

definition va :: voxel where "va = (0, 0, 0)"
definition vb :: voxel where "vb = (1, 0, 0)"
definition vc :: voxel where "vc = (2, 0, 0)"
definition vd :: voxel where "vd = (3, 0, 0)"
definition ve :: voxel where "ve = (4, 0, 0)"

section \<open>Slices\<close>

lemma py_slice_first_row: "py_slice xs None (Some 1) None = Inr (take 1 xs)"
proof (cases xs)
  case Nil
  then show ?thesis
    by (simp add: py_slice_def adjust_index_def slice_length_def)
next
  case (Cons x ys)
  then show ?thesis
    by (cases ys) (simp_all add: py_slice_def adjust_index_def slice_length_def Let_def)
qed

lemma py_slice_last_row:
  "py_slice xs (Some (- 1)) None None = Inr (if xs = [] then [] else [last xs])"
proof (cases "xs = []")
  case True
  then show ?thesis
    by (simp add: py_slice_def adjust_index_def slice_length_def)
next
  case False
  then have "0 < length xs" by simp
  then have "xs ! (length xs - 1) = last xs"
    using False by (simp add: last_conv_nth)
  moreover have "nat (int (length xs) - 1) = length xs - 1" by simp
  ultimately show ?thesis
    using False by (simp add: py_slice_def adjust_index_def slice_length_def)
qed

section \<open>Arrays: indices, maximum and arg-max\<close>

lemma unravel_in_bounds:
  assumes "i < size3 s"
  shows "in_bounds s (unravel_index i s)"
proof -
  obtain sx sy sz where s: "s = (sx, sy, sz)" by (cases s) auto
  from assms s have i: "i < sx * sy * sz" by simp
  then have sy: "0 < sy" and sz: "0 < sz" by (auto intro: Nat.gr0I)
  have "i div (sy * sz) < sx"
    using i sy sz by (simp add: less_mult_imp_div_less mult.assoc)
  then show ?thesis using s sy sz by simp
qed

lemma ravel_lt:
  assumes "in_bounds s v" shows "ravel s v < size3 s"
proof -
  obtain sx sy sz where s: "s = (sx, sy, sz)" by (cases s) auto
  obtain x y z where v: "v = (x, y, z)" by (cases v) auto
  from assms s v have b: "x < sx" "y < sy" "z < sz" by auto
  have "x * sy + y < sx * sy"
  proof -
    have "x * sy + y < x * sy + sy" using b by simp
    also have "\<dots> = (Suc x) * sy" by simp
    also have "\<dots> \<le> sx * sy" using b by (intro mult_le_mono1) simp
    finally show ?thesis .
  qed
  then have "(x * sy + y) * sz + z < (x * sy + y) * sz + sz" using b by simp
  also have "\<dots> = Suc (x * sy + y) * sz" by simp
  also have "\<dots> \<le> (sx * sy) * sz" using \<open>x * sy + y < sx * sy\<close> by (intro mult_le_mono1) simp
  finally show ?thesis using s v by simp
qed

lemma unravel_ravel:
  assumes "in_bounds s v" shows "unravel_index (ravel s v) s = v"
proof -
  obtain sx sy sz where s: "s = (sx, sy, sz)" by (cases s) auto
  obtain x y z where v: "v = (x, y, z)" by (cases v) auto
  from assms s v have b: "x < sx" "y < sy" "z < sz" by auto
  have 1: "((x * sy + y) * sz + z) mod sz = z" using b by simp
  have 2: "((x * sy + y) * sz + z) div sz = x * sy + y" using b by simp
  have 3: "(x * sy + y) mod sy = y" using b by simp
  have 4: "((x * sy + y) * sz + z) div (sy * sz) = x"
  proof -
    have "((x * sy + y) * sz + z) div (sy * sz) = (((x * sy + y) * sz + z) div sz) div sy"
      by (subst mult.commute[of sy sz]) (rule div_mult2_eq)
    also have "\<dots> = x" using 2 b by simp
    finally show ?thesis .
  qed
  show ?thesis using s v 1 2 3 4 by simp
qed

lemma ravel_unravel:
  assumes "i < size3 s" shows "ravel s (unravel_index i s) = i"
proof -
  obtain sx sy sz where s: "s = (sx, sy, sz)" by (cases s) auto
  from assms s have i: "i < sx * sy * sz" by simp
  then have sy: "0 < sy" and sz: "0 < sz" by (auto intro: Nat.gr0I)
  have "i div (sy * sz) * sy + i div sz mod sy = i div sz"
    by (metis div_mult2_eq mult.commute div_mult_mod_eq)
  then show ?thesis using s by simp
qed


lemma flat_length: "length (flat A) = size3 (shape A)"
  by (simp add: flat_def)

lemma flat_nth: "i < size3 (shape A) \<Longrightarrow> flat A ! i = cell A (unravel_index i (shape A))"
  by (simp add: flat_def)

lemma set_flat: "set (flat A) = cell A ` {v. in_bounds (shape A) v}"
proof
  show "set (flat A) \<subseteq> cell A ` {v. in_bounds (shape A) v}"
    by (auto simp: flat_def intro!: imageI unravel_in_bounds)
next
  show "cell A ` {v. in_bounds (shape A) v} \<subseteq> set (flat A)"
  proof
    fix a assume "a \<in> cell A ` {v. in_bounds (shape A) v}"
    then obtain v where v: "in_bounds (shape A) v" "a = cell A v" by auto
    then have "ravel (shape A) v < size3 (shape A)" by (simp add: ravel_lt)
    moreover have "cell A (unravel_index (ravel (shape A) v) (shape A)) = a"
      using v by (simp add: unravel_ravel)
    ultimately show "a \<in> set (flat A)"
      unfolding flat_def by (metis (mono_tags, lifting) atLeast0LessThan image_eqI lessThan_iff list.set_map set_upt)
  qed
qed

lemma fold_max_ge: "(b::real) \<le> fold max xs b" and fold_max_ge_elem: "x \<in> set xs \<Longrightarrow> x \<le> fold max xs (b::real)"
proof -
  have "b \<le> fold max xs b \<and> (\<forall>x \<in> set xs. x \<le> fold max xs b)"
  proof (induction xs arbitrary: b)
    case Nil
    then show ?case by simp
  next
    case (Cons y ys)
    have 1: "max y b \<le> fold max ys (max y b)" using Cons.IH by blast
    have 2: "\<forall>x\<in>set ys. x \<le> fold max ys (max y b)" using Cons.IH by blast
    have 3: "b \<le> max y b" "y \<le> max y b" by simp_all
    show ?case using 1 2 3 by (auto intro: order_trans)
  qed
  then show "b \<le> fold max xs b" and "x \<in> set xs \<Longrightarrow> x \<le> fold max xs b" by auto
qed

lemma fold_max_in: "fold max xs (b::real) \<in> insert b (set xs)"
proof (induction xs arbitrary: b)
  case Nil
  then show ?case by simp
next
  case (Cons y ys)
  have "fold max ys (max y b) \<in> insert (max y b) (set ys)" by (rule Cons.IH)
  moreover have "max y b = y \<or> max y b = b" by (simp add: max_def)
  ultimately show ?case by auto
qed

lemma np_max_empty: "size3 (shape A) = 0 \<Longrightarrow> np_max A = Inl ZeroSizeReduction"
  by (simp add: np_max_def flat_def)

lemma np_max_Inr:
  assumes "np_max A = Inr m"
  shows "0 < size3 (shape A)"
    and "\<exists>v. in_bounds (shape A) v \<and> cell A v = m"
    and "in_bounds (shape A) v \<Longrightarrow> cell A v \<le> m"
proof -
  from assms obtain x xs where f: "flat A = x # xs" and m: "m = fold max xs x"
    by (auto simp: np_max_def split: list.splits)
  from f have "length (flat A) \<noteq> 0" by simp
  then show "0 < size3 (shape A)" by (simp add: flat_length)
  have "m \<in> set (flat A)" using fold_max_in[of xs x] f m by simp
  then show "\<exists>v. in_bounds (shape A) v \<and> cell A v = m" by (auto simp: set_flat)
  assume "in_bounds (shape A) v"
  then have "cell A v \<in> set (flat A)" by (auto simp: set_flat)
  then show "cell A v \<le> m"
    using f m fold_max_ge[of x xs] fold_max_ge_elem[of "cell A v" xs x] by auto
qed

lemma np_max_total:
  assumes "0 < size3 (shape A)"
  shows "\<exists>m. np_max A = Inr m"
proof -
  from assms have "flat A \<noteq> []" using flat_length[of A] by auto
  then show ?thesis by (auto simp: np_max_def split: list.splits)
qed

lemma np_max_eqI:
  assumes "in_bounds (shape A) w" "cell A w = m" "\<And>v. in_bounds (shape A) v \<Longrightarrow> cell A v \<le> m"
  shows "np_max A = Inr m"
proof -
  have "ravel (shape A) w < size3 (shape A)" using assms(1) by (rule ravel_lt)
  then have "0 < size3 (shape A)" by simp
  then obtain m' where m': "np_max A = Inr m'" using np_max_total by blast
  from np_max_Inr(2)[OF m'] obtain v where "in_bounds (shape A) v" "cell A v = m'" by blast
  then have "m' \<le> m" using assms(3) by blast
  moreover have "m \<le> m'" using np_max_Inr(3)[OF m' assms(1)] assms(2) by simp
  ultimately show ?thesis using m' by simp
qed

lemma argmax_scan_correct:
  assumes "length pre = i" "best_i < i" "(pre @ ys) ! best_i = best"
    and "\<forall>j<i. (pre @ ys) ! j \<le> best" "\<forall>j<best_i. (pre @ ys) ! j < best"
  shows "argmax_scan ys i best_i best < i + length ys
       \<and> (\<forall>j < i + length ys. (pre @ ys) ! j \<le> (pre @ ys) ! argmax_scan ys i best_i best)
       \<and> (\<forall>j < argmax_scan ys i best_i best. (pre @ ys) ! j < (pre @ ys) ! argmax_scan ys i best_i best)"
  using assms
proof (induction ys arbitrary: pre i best_i best)
  case Nil
  then show ?case by simp
next
  case (Cons y ys)
  let ?L = "pre @ y # ys"
  have L: "(pre @ [y]) @ ys = ?L" by simp
  have yi: "?L ! i = y" using Cons.prems(1) by (simp add: nth_append)
  show ?case
  proof (cases "best < y")
    case True
    have a: "length (pre @ [y]) = Suc i" using Cons.prems(1) by simp
    have b: "i < Suc i" by simp
    have c: "((pre @ [y]) @ ys) ! i = y" using yi by simp
    have d: "\<forall>j<Suc i. ((pre @ [y]) @ ys) ! j \<le> y"
    proof (intro allI impI)
      fix j assume "j < Suc i"
      then consider "j < i" | "j = i" by linarith
      then show "((pre @ [y]) @ ys) ! j \<le> y"
      proof cases
        case 1
        then have "?L ! j \<le> best" using Cons.prems(4) by blast
        then show ?thesis using True by simp
      next
        case 2
        then show ?thesis using yi by simp
      qed
    qed
    have e: "\<forall>j<i. ((pre @ [y]) @ ys) ! j < y"
    proof (intro allI impI)
      fix j assume "j < i"
      then have "?L ! j \<le> best" using Cons.prems(4) by blast
      then show "((pre @ [y]) @ ys) ! j < y" using True by simp
    qed
    from Cons.IH[OF a b c d e] True show ?thesis by simp
  next
    case False
    have a: "length (pre @ [y]) = Suc i" using Cons.prems(1) by simp
    have b: "best_i < Suc i" using Cons.prems(2) by simp
    have c: "((pre @ [y]) @ ys) ! best_i = best" using Cons.prems(3) by simp
    have d: "\<forall>j<Suc i. ((pre @ [y]) @ ys) ! j \<le> best"
    proof (intro allI impI)
      fix j assume "j < Suc i"
      then consider "j < i" | "j = i" by linarith
      then show "((pre @ [y]) @ ys) ! j \<le> best"
      proof cases
        case 1
        then show ?thesis using Cons.prems(4) by simp
      next
        case 2
        then show ?thesis using yi False by simp
      qed
    qed
    have e: "\<forall>j<best_i. ((pre @ [y]) @ ys) ! j < best" using Cons.prems(5) by simp
    from Cons.IH[OF a b c d e] False show ?thesis by simp
  qed
qed

lemma np_argmax_empty: "size3 (shape A) = 0 \<Longrightarrow> np_argmax A = Inl ZeroSizeReduction"
  by (simp add: np_argmax_def flat_def)

lemma np_argmax_Inr:
  assumes "0 < size3 (shape A)"
  shows "\<exists>i. np_argmax A = Inr i \<and> i < size3 (shape A)
           \<and> (\<forall>j < size3 (shape A). flat A ! j \<le> flat A ! i)
           \<and> (\<forall>j < i. flat A ! j < flat A ! i)"
proof -
  from assms have "flat A \<noteq> []" using flat_length[of A] by auto
  then obtain x xs where f: "flat A = x # xs" by (cases "flat A") auto
  have len: "Suc (length xs) = size3 (shape A)" using f flat_length[of A] by simp
  have "argmax_scan xs 1 0 x < 1 + length xs
       \<and> (\<forall>j < 1 + length xs. ([x] @ xs) ! j \<le> ([x] @ xs) ! argmax_scan xs 1 0 x)
       \<and> (\<forall>j < argmax_scan xs 1 0 x. ([x] @ xs) ! j < ([x] @ xs) ! argmax_scan xs 1 0 x)"
    by (rule argmax_scan_correct) simp_all
  then show ?thesis using f len by (simp add: np_argmax_def)
qed

lemma np_argmax_maximal:
  assumes "np_argmax A = Inr i"
  shows "in_bounds (shape A) (unravel_index i (shape A))"
    and "in_bounds (shape A) v \<Longrightarrow> cell A v \<le> cell A (unravel_index i (shape A))"
proof -
  have pos: "0 < size3 (shape A)"
  proof (rule ccontr)
    assume "\<not> 0 < size3 (shape A)"
    then have "np_argmax A = Inl ZeroSizeReduction" by (simp add: np_argmax_empty)
    with assms show False by simp
  qed
  from np_argmax_Inr[OF pos] assms
  have i: "i < size3 (shape A)" and mx: "\<forall>j < size3 (shape A). flat A ! j \<le> flat A ! i" by auto
  show "in_bounds (shape A) (unravel_index i (shape A))" using i by (rule unravel_in_bounds)
  assume v: "in_bounds (shape A) v"
  then have r: "ravel (shape A) v < size3 (shape A)" by (rule ravel_lt)
  then have "flat A ! ravel (shape A) v \<le> flat A ! i" using mx by blast
  then show "cell A v \<le> cell A (unravel_index i (shape A))"
    using r i v by (simp add: flat_nth unravel_ravel)
qed

section \<open>The empty mask (C8)\<close>

lemma TEASAR_no_root:
  assumes "np_max DBF = Inr m" "\<not> soma_detection_threshold < m" "first_label h labels = None"
  shows "TEASAR fuel h labels DBF scale const anisotropy soma_detection_threshold pdrf_scale
           pdrf_exponent soma_invalidation_scale soma_invalidation_const path_downsample
         = Some (Inr empty_skeleton)"
  using assms by (simp add: TEASAR_def choose_root_def find_root_def)

lemma TEASAR_zero_size:
  assumes "size3 (shape DBF) = 0"
  shows "TEASAR fuel h labels DBF scale const anisotropy soma_detection_threshold pdrf_scale
           pdrf_exponent soma_invalidation_scale soma_invalidation_const path_downsample
         = Some (Inl ZeroSizeReduction)"
  using assms by (simp add: TEASAR_def choose_root_def np_max_empty)

text \<open>
  Claim C8, as amended. On a grid with at least one voxel, when no DBF value
  exceeds \<open>soma_detection_threshold\<close> (so the soma branch is not taken), the
  mask has no true voxel and the helper \<open>first_label\<close> finds none in such a
  mask, TEASAR returns the empty skeleton and raises nothing, whatever the
  options and the fuel.
\<close>

theorem empty_mask_empty_skeleton:
  assumes "0 < size3 (shape DBF)"
    and "\<forall>v. in_bounds (shape DBF) v \<longrightarrow> cell DBF v \<le> soma_detection_threshold"
    and "\<forall>v. in_bounds (shape labels) v \<longrightarrow> \<not> cell labels v"
    and "\<forall>l. (\<forall>v. in_bounds (shape l) v \<longrightarrow> \<not> cell l v) \<longrightarrow> first_label h l = None"
  shows "TEASAR fuel h labels DBF scale const anisotropy soma_detection_threshold pdrf_scale
           pdrf_exponent soma_invalidation_scale soma_invalidation_const path_downsample
         = Some (Inr empty_skeleton)"
proof -
  from assms(1) obtain m where m: "np_max DBF = Inr m" using np_max_total by blast
  from np_max_Inr(2)[OF m] obtain w where "in_bounds (shape DBF) w" "cell DBF w = m" by blast
  with assms(2) have "m \<le> soma_detection_threshold" by blast
  then have "\<not> soma_detection_threshold < m" by simp
  moreover have "first_label h labels = None" using assms(3,4) by blast
  ultimately show ?thesis using m by (rule_tac TEASAR_no_root) 
qed

theorem empty_mask_empty_skeleton_witness:
  "TEASAR 0 (stand_in (0,0,0) []) (no_voxels (1,1,1)) (zeros (1,1,1)) 10 10 (1,1,1) 5000 5000 16 (1/2) 0 1
     = Some (Inr empty_skeleton)"
proof -
  have 1: "0 < size3 (shape (zeros (1,1,1)))" by (simp add: zeros_def)
  have 2: "\<forall>v. in_bounds (shape (zeros (1,1,1))) v \<longrightarrow> cell (zeros (1,1,1)) v \<le> 5000"
    by (simp add: zeros_def)
  have 3: "\<forall>v. in_bounds (shape (no_voxels (1,1,1))) v \<longrightarrow> \<not> cell (no_voxels (1,1,1)) v"
    by (simp add: no_voxels_def)
  have 4: "\<forall>l. (\<forall>v. in_bounds (shape l) v \<longrightarrow> \<not> cell l v) \<longrightarrow> first_label (stand_in (0,0,0) []) l = None"
    unfolding stand_in_def by (simp del: split_paired_All) blast
  show ?thesis by (rule empty_mask_empty_skeleton[OF 1 2 3 4])
qed

text \<open>
  As stated, C8 fails on a grid without cells: such a mask has no true voxel,
  and \<^verbatim>\<open>np.max(DBF)\<close> raises.
\<close>

theorem zero_size_grid_raises:
  "TEASAR 0 (stand_in (0,0,0) []) (no_voxels (0,0,0)) (zeros (0,0,0)) 10 10 (1,1,1) 5000 5000 16 (1/2) 0 1
     = Some (Inl ZeroSizeReduction)"
  by (rule TEASAR_zero_size) (simp add: zeros_def)

section \<open>Downsampling (C4)\<close>


lemma py_slice_strided:
  assumes "0 < k"
  shows "py_slice xs (Some 0) (Some (- 2)) (Some k)
         = Inr (map (\<lambda>i. xs ! (i * nat k))
                  [0..<(if 2 < length xs then (length xs - 3) div nat k + 1 else 0)])"
proof (cases "2 < length xs")
  case True
  then have adj: "adjust_index (int (length xs)) k (- 2) = int (length xs) - 2"
    by (simp add: adjust_index_def)
  have adj0: "adjust_index (int (length xs)) k 0 = 0"
    using True assms by (auto simp: adjust_index_def)
  have "(int (length xs) - 2 - 0 - 1) div k = int ((length xs - 3) div nat k)"
  proof -
    have "int (length xs) - 2 - 0 - 1 = int (length xs - 3)" using True by simp
    moreover have "k = int (nat k)" using assms by simp
    ultimately show ?thesis by (metis zdiv_int)
  qed
  then have sl: "slice_length 0 (int (length xs) - 2) k = (length xs - 3) div nat k + 1"
    using assms True by (simp add: slice_length_def nat_add_distrib)
  have idx: "\<And>i. nat (0 + int i * k) = i * nat k"
    using assms by (simp add: nat_mult_distrib)
  show ?thesis
    using assms True adj adj0 sl idx by (simp add: py_slice_def Let_def)
next
  case False
  then have "adjust_index (int (length xs)) k (- 2) \<le> adjust_index (int (length xs)) k 0"
    using assms by (auto simp: adjust_index_def)
  then have "slice_length (adjust_index (int (length xs)) k 0) (adjust_index (int (length xs)) k (- 2)) k = 0"
    using assms by (simp add: slice_length_def)
  then show ?thesis using assms False by (simp add: py_slice_def Let_def)
qed



text \<open>
  Claim C4 at a path of two vertices, with stride 1: the slice
  \<^verbatim>\<open>path[0:-2:1]\<close> is empty, so the downsampled path is the last vertex alone
  and the first vertex is lost, against the comment of line 107 ("Ensure
  first and last point remain").
\<close>

theorem downsample_drops_first_of_two: "downsample 1 [a, b] = Inr [b]"
  by (simp add: downsample_def py_slice_def adjust_index_def slice_length_def)

section \<open>Soma suppression (C10)\<close>






section \<open>The root in soma mode (C7)\<close>

lemma np_argmax_first:
  assumes "np_argmax A = Inr i" "in_bounds (shape A) v"
    and "cell A v = cell A (unravel_index i (shape A))"
  shows "i \<le> ravel (shape A) v"
proof (rule ccontr)
  assume "\<not> i \<le> ravel (shape A) v"
  then have lt: "ravel (shape A) v < i" by simp
  have pos: "0 < size3 (shape A)" using ravel_lt[OF assms(2)] by simp
  from np_argmax_Inr[OF pos] assms(1)
  have i: "i < size3 (shape A)" and first: "\<forall>j < i. flat A ! j < flat A ! i" by auto
  from first lt have "flat A ! ravel (shape A) v < flat A ! i" by blast
  then have "cell A v < cell A (unravel_index i (shape A))"
    using i ravel_lt[OF assms(2)] assms(2) by (simp add: flat_nth unravel_ravel)
  with assms(3) show False by simp
qed

text \<open>
  Claim C7. When the maximum of the DBF exceeds \<open>soma_detection_threshold\<close>,
  TEASAR goes on from the root \<open>r\<close> that lines 69-76 choose: with the mask
  after hole filling and the DBF recomputed from it by the distance transform
  (both external, and assumed to return an array with at least one cell),
  \<open>r\<close> lies inside the recomputed DBF, no cell of it is greater than the one
  at \<open>r\<close>, and \<open>r\<close> is the first such voxel in C order.
\<close>

theorem soma_root_is_argmax:
  assumes "np_max DBF = Inr m"
    and "soma_detection_threshold < m"
    and "0 < size3 (shape (edt h (binary_fill_holes h labels) anisotropy))"
  shows "\<exists>r dbf_max'.
           choose_root h labels DBF anisotropy soma_detection_threshold soma_invalidation_scale
               soma_invalidation_const
             = Inr (True, binary_fill_holes h labels, edt h (binary_fill_holes h labels) anisotropy,
                    dbf_max', Some r, dbf_max' * soma_invalidation_scale + soma_invalidation_const)
         \<and> TEASAR fuel h labels DBF scale const anisotropy soma_detection_threshold pdrf_scale
               pdrf_exponent soma_invalidation_scale soma_invalidation_const path_downsample
             = extract_skeleton fuel h True (binary_fill_holes h labels)
                 (edt h (binary_fill_holes h labels) anisotropy) dbf_max' r
                 (dbf_max' * soma_invalidation_scale + soma_invalidation_const) scale const anisotropy
                 pdrf_scale pdrf_exponent soma_invalidation_scale soma_invalidation_const
                 path_downsample
         \<and> in_bounds (shape (edt h (binary_fill_holes h labels) anisotropy)) r
         \<and> (\<forall>v. in_bounds (shape (edt h (binary_fill_holes h labels) anisotropy)) v \<longrightarrow>
                cell (edt h (binary_fill_holes h labels) anisotropy) v
                  \<le> cell (edt h (binary_fill_holes h labels) anisotropy) r)
         \<and> (\<forall>v. in_bounds (shape (edt h (binary_fill_holes h labels) anisotropy)) v
                \<and> cell (edt h (binary_fill_holes h labels) anisotropy) v
                    = cell (edt h (binary_fill_holes h labels) anisotropy) r \<longrightarrow>
                ravel (shape (edt h (binary_fill_holes h labels) anisotropy)) r
                  \<le> ravel (shape (edt h (binary_fill_holes h labels) anisotropy)) v)"
proof -
  let ?D = "edt h (binary_fill_holes h labels) anisotropy"
  from np_max_total[OF assms(3)] obtain m' where m': "np_max ?D = Inr m'" by blast
  from np_argmax_Inr[OF assms(3)] obtain i where i: "np_argmax ?D = Inr i" "i < size3 (shape ?D)"
    by blast
  let ?r = "unravel_index i (shape ?D)"
  have cr: "choose_root h labels DBF anisotropy soma_detection_threshold soma_invalidation_scale
               soma_invalidation_const
             = Inr (True, binary_fill_holes h labels, ?D, m', Some ?r,
                    m' * soma_invalidation_scale + soma_invalidation_const)"
    using assms(1,2) m' i(1) by (simp add: choose_root_def Let_def)
  have te: "TEASAR fuel h labels DBF scale const anisotropy soma_detection_threshold pdrf_scale
               pdrf_exponent soma_invalidation_scale soma_invalidation_const path_downsample
             = extract_skeleton fuel h True (binary_fill_holes h labels) ?D m' ?r
                 (m' * soma_invalidation_scale + soma_invalidation_const) scale const anisotropy
                 pdrf_scale pdrf_exponent soma_invalidation_scale soma_invalidation_const
                 path_downsample"
    using cr by (simp add: TEASAR_def)
  have ib: "in_bounds (shape ?D) ?r" using i(2) by (rule unravel_in_bounds)
  have mx: "\<forall>v. in_bounds (shape ?D) v \<longrightarrow> cell ?D v \<le> cell ?D ?r"
    using np_argmax_maximal(2)[OF i(1)] by blast
  have fst: "\<forall>v. in_bounds (shape ?D) v \<and> cell ?D v = cell ?D ?r \<longrightarrow>
                ravel (shape ?D) ?r \<le> ravel (shape ?D) v"
    using np_argmax_first[OF i(1)] ravel_unravel[OF i(2)] by auto
  from cr te ib mx fst show ?thesis by blast
qed

lemma soma_DBF_max: "np_max soma_DBF = Inr 6000"
  by (rule np_max_eqI[where w = "(0, 0, 1)"]) (simp_all add: soma_DBF_def)

theorem soma_root_is_argmax_witness:
  "choose_root (stand_in (0, 0, 1) [(0, 0, 1)]) soma_labels soma_DBF (1, 1, 1) 5000 (1 / 2) 0
     = Inr (True, soma_labels, map_array3 (\<lambda>b. if b then 1 else 0) soma_labels, 1, Some (0, 0, 1), 1 / 2)"
proof -
  let ?h = "stand_in (0, 0, 1) [(0, 0, 1)]"
  let ?D = "edt ?h (binary_fill_holes ?h soma_labels) (1, 1, 1)"
  have D: "?D = map_array3 (\<lambda>b. if b then 1 else 0) soma_labels"
    and L: "binary_fill_holes ?h soma_labels = soma_labels"
    by (simp_all add: stand_in_def)
  have 3: "0 < size3 (shape ?D)" by (simp add: stand_in_def map_array3_def soma_labels_def)
  have thr: "(5000::real) < 6000" by simp
  from soma_root_is_argmax[OF soma_DBF_max thr 3, of "1 / 2" 0 0 10 10 5000 16 1]
  obtain r d where
    cr: "choose_root ?h soma_labels soma_DBF (1, 1, 1) 5000 (1 / 2) 0
           = Inr (True, binary_fill_holes ?h soma_labels, ?D, d, Some r, d * (1 / 2) + 0)"
    and ib: "in_bounds (shape ?D) r"
    and mx: "\<forall>v. in_bounds (shape ?D) v \<longrightarrow> cell ?D v \<le> cell ?D r"
    and fs: "\<forall>v. in_bounds (shape ?D) v \<and> cell ?D v = cell ?D r \<longrightarrow>
                ravel (shape ?D) r \<le> ravel (shape ?D) v"
    by blast
  have sh: "shape ?D = (1, 1, 3)" by (simp add: stand_in_def map_array3_def soma_labels_def)
  have c1: "cell ?D (0, 0, 1) = 1" by (simp add: stand_in_def map_array3_def soma_labels_def)
  have ib1: "in_bounds (shape ?D) (0, 0, 1)"
    by (simp add: stand_in_def map_array3_def soma_labels_def)
  from mx ib1 c1 have "1 \<le> cell ?D r" by metis
  then have r_in: "cell soma_labels r" by (auto simp: stand_in_def map_array3_def split: if_splits)
  then have cr1: "cell ?D r = 1" by (simp add: stand_in_def map_array3_def)
  from fs ib1 c1 cr1 have "ravel (shape ?D) r \<le> ravel (shape ?D) (0, 0, 1)" by metis
  then have "ravel (1, 1, 3) r \<le> 1" unfolding sh by simp
  moreover from r_in have "r = (0, 0, 1) \<or> r = (0, 0, 2)" by (simp add: soma_labels_def)
  ultimately have r: "r = (0, 0, 1)" by auto
  have "np_max ?D = Inr 1"
    by (rule np_max_eqI[where w = "(0, 0, 1)"]) (simp_all add: stand_in_def map_array3_def soma_labels_def)
  moreover have "np_max ?D = Inr d"
    using cr soma_DBF_max by (simp add: choose_root_def Let_def split: sum.splits)
  ultimately have d: "d = 1" by simp
  show ?thesis using cr r d L D by simp
qed

section \<open>Counting the voxels of a mask\<close>

lemma count_nonzero_card:
  "count_nonzero labels = int (card {v. in_bounds (shape labels) v \<and> cell labels v})"
proof -
  let ?s = "shape labels"
  let ?n = "size3 ?s"
  let ?I = "{i. i < ?n \<and> cell labels (unravel_index i ?s)}"
  let ?V = "{v. in_bounds ?s v \<and> cell labels v}"
  have "filter (\<lambda>b. b) (flat labels)
        = map (\<lambda>i. cell labels (unravel_index i ?s))
            (filter (\<lambda>i. cell labels (unravel_index i ?s)) [0..<?n])"
    unfolding flat_def filter_map by (simp add: comp_def)
  then have "length (filter (\<lambda>b. b) (flat labels))
        = length (filter (\<lambda>i. cell labels (unravel_index i ?s)) [0..<?n])"
    by simp
  also have "\<dots> = card ?I"
  proof -
    have "{i. i < length [0..<?n] \<and> cell labels (unravel_index ([0..<?n] ! i) ?s)} = ?I"
      by auto
    then show ?thesis by (simp only: length_filter_conv_card)
  qed
  also have "\<dots> = card ?V"
  proof (rule bij_betw_same_card[where f = "\<lambda>i. unravel_index i ?s"])
    show "bij_betw (\<lambda>i. unravel_index i ?s) ?I ?V"
    proof (rule bij_betw_byWitness[where f' = "ravel ?s"])
      show "\<forall>a\<in>?I. ravel ?s (unravel_index a ?s) = a" by (simp add: ravel_unravel)
      show "\<forall>a'\<in>?V. unravel_index (ravel ?s a') ?s = a'"
      proof
        fix a' assume "a' \<in> ?V"
        then have "in_bounds ?s a'" by simp
        then show "unravel_index (ravel ?s a') ?s = a'" by (rule unravel_ravel)
      qed
      show "(\<lambda>i. unravel_index i ?s) ` ?I \<subseteq> ?V"
      proof
        fix v assume "v \<in> (\<lambda>i. unravel_index i ?s) ` ?I"
        then obtain i where i: "i < ?n" "cell labels (unravel_index i ?s)" "v = unravel_index i ?s"
          by auto
        from i(1) have "in_bounds ?s (unravel_index i ?s)" by (rule unravel_in_bounds)
        with i show "v \<in> ?V" by simp
      qed
      show "ravel ?s ` ?V \<subseteq> ?I"
      proof
        fix i assume "i \<in> ravel ?s ` ?V"
        then obtain v where v: "in_bounds ?s v" "cell labels v" "i = ravel ?s v" by auto
        from v(1) have "ravel ?s v < ?n" by (rule ravel_lt)
        moreover from v(1) have "unravel_index (ravel ?s v) ?s = v" by (rule unravel_ravel)
        ultimately show "i \<in> ?I" using v by simp
      qed
    qed
  qed
  finally show ?thesis by (simp add: count_nonzero_def)
qed

section \<open>The object of a single voxel (C3)\<close>

lemma count_one_voxel: "in_bounds s t \<Longrightarrow> count_nonzero (one_voxel s t) = 1"
proof -
  assume "in_bounds s t"
  then have "{v. in_bounds (shape (one_voxel s t)) v \<and> cell (one_voxel s t) v} = {t}"
    by (auto simp: one_voxel_def)
  then show ?thesis by (simp add: count_nonzero_card)
qed

lemma max_one_voxel_DBF: "in_bounds s t \<Longrightarrow> np_max (one_voxel_DBF s t) = Inr 1"
  by (rule np_max_eqI[where w = t]) (simp_all add: one_voxel_DBF_def)

lemma downsample_single: "0 < k \<Longrightarrow> downsample k [v] = Inr [v]"
  by (simp add: downsample_def py_slice_strided py_slice_last_row)

lemma path_union_single_vertex:
  "path_union (Suc fuel) [[v]] = Some (Inr ([], []))"
  by (simp add: path_union_def build_tree_def add_path_def flatten_vertices_def flatten_edges_def)

lemma assemble_single_vertex:
  "0 < k \<Longrightarrow> assemble (Suc fuel) DBF k [[v]] = Some (Inr empty_skeleton)"
  by (simp add: assemble_def downsample_single path_union_single_vertex rows3_def rows2_def
      empty_skeleton_def)

text \<open>
  Claim C3, on the code. The mask has the single voxel \<open>(5, 5, 5)\<close>, inside a
  grid of any shape, the DBF is 1 there and 0 elsewhere, and the options are
  the defaults. The helpers are assumed to do on this input what they are
  for: the first label and both targets are the voxel, the path from the
  root to itself is the voxel alone, and the invalidation clears it. Then
  TEASAR returns the empty skeleton: no vertex, no edge, no radius. The one
  extracted path has no pair of consecutive vertices, and path\_union
  registers vertices only from such pairs.
\<close>

theorem single_voxel_gives_empty_skeleton:
  assumes "in_bounds s (5, 5, 5)"
    and "first_label h (one_voxel s (5, 5, 5)) = Some (5, 5, 5)"
    and "euclidean_distance_field h (one_voxel s (5, 5, 5)) (5, 5, 5) (1, 1, 1) = Inr DAF"
    and "find_target h (one_voxel s (5, 5, 5)) DAF = (5, 5, 5)"
    and "parental_field h (compute_pdrf 1 5000 16 (one_voxel_DBF s (5, 5, 5)) DAF) (5, 5, 5) = Inr parents"
    and "find_target h (one_voxel s (5, 5, 5)) (compute_pdrf 1 5000 16 (one_voxel_DBF s (5, 5, 5)) DAF)
           = (5, 5, 5)"
    and "path_from_parents h parents (5, 5, 5) = [(5, 5, 5)]"
    and "roll_invalidation_cube h (one_voxel s (5, 5, 5)) (one_voxel_DBF s (5, 5, 5)) [(5, 5, 5)]
           10 10 (1, 1, 1) {} = (1, labels')"
  shows "TEASAR (Suc fuel) h (one_voxel s (5, 5, 5)) (one_voxel_DBF s (5, 5, 5))
           10 10 (1, 1, 1) 5000 5000 16 (1 / 2) 0 1
         = Some (Inr empty_skeleton)"
proof -
  let ?L = "one_voxel s (5, 5, 5)" and ?D = "one_voxel_DBF s (5, 5, 5)"
  let ?P = "compute_pdrf 1 5000 16 ?D DAF"
  have mx: "np_max ?D = Inr 1" using assms(1) by (rule max_one_voxel_DBF)
  have fr: "find_root h ?L (1, 1, 1) = Inr (Some (5, 5, 5))"
    using assms(2,3,4) by (simp add: find_root_def)
  have cr: "choose_root h ?L ?D (1, 1, 1) 5000 (1 / 2) 0
              = Inr (False, ?L, ?D, 1, Some (5, 5, 5), 0)"
    using mx fr by (simp add: choose_root_def)
  have cnt: "count_nonzero ?L = 1" using assms(1) by (rule count_one_voxel)
  have body: "valid_labels (compute_paths_body h (5, 5, 5) ?D ?P parents 10 10 (1, 1, 1) False 0
                 (compute_paths_init (5, 5, 5) ?L False)) = 0"
    and bpaths: "cp_paths (compute_paths_body h (5, 5, 5) ?D ?P parents 10 10 (1, 1, 1) False 0
                 (compute_paths_init (5, 5, 5) ?L False)) = [[(5, 5, 5)]]"
    using assms(6,7,8) cnt by (simp_all add: compute_paths_body_def compute_paths_init_def)
  have cp: "compute_paths (Suc fuel) h (5, 5, 5) ?L ?D ?P parents 10 10 (1, 1, 1) False 0
              = Some [[(5, 5, 5)]]"
  proof -
    have "0 < valid_labels (compute_paths_init (5, 5, 5) ?L False)"
      using cnt by (simp add: compute_paths_init_def)
    then have "compute_paths (Suc fuel) h (5, 5, 5) ?L ?D ?P parents 10 10 (1, 1, 1) False 0
          = compute_paths_loop fuel h (5, 5, 5) ?D ?P parents 10 10 (1, 1, 1) False 0
              (compute_paths_body h (5, 5, 5) ?D ?P parents 10 10 (1, 1, 1) False 0
                 (compute_paths_init (5, 5, 5) ?L False))"
      by (simp add: compute_paths_def)
    also have "\<dots> = Some [[(5, 5, 5)]]"
      using body bpaths by (subst compute_paths_loop.simps) simp
    finally show ?thesis .
  qed
  have ex: "extract_skeleton (Suc fuel) h False ?L ?D 1 (5, 5, 5) 0 10 10 (1, 1, 1) 5000 16 (1 / 2) 0 1
              = Some (Inr empty_skeleton)"
    using assms(3,5) cp by (simp add: extract_skeleton_def assemble_single_vertex)
  show ?thesis using cr ex by (simp add: TEASAR_def)
qed



theorem single_voxel_gives_empty_skeleton_witness:
  "TEASAR 1 (stand_in (5, 5, 5) [(5, 5, 5)]) (one_voxel (11, 11, 11) (5, 5, 5))
     (one_voxel_DBF (11, 11, 11) (5, 5, 5)) 10 10 (1, 1, 1) 5000 5000 16 (1 / 2) 0 1
   = Some (Inr empty_skeleton)"
proof -
  let ?h = "stand_in (5, 5, 5) [(5, 5, 5)]"
  let ?L = "one_voxel (11, 11, 11) (5, 5, 5)" and ?D = "one_voxel_DBF (11, 11, 11) (5, 5, 5)"
  have 1: "in_bounds (11, 11, 11) (5, 5, 5)" by simp
  have 2: "first_label ?h ?L = Some (5, 5, 5)" by (simp add: stand_in_def one_voxel_def)
  have 3: "euclidean_distance_field ?h ?L (5, 5, 5) (1, 1, 1) = Inr (map_array3 (\<lambda>b. 0) ?L)"
    by (simp add: stand_in_def one_voxel_def)
  have 4: "find_target ?h ?L (map_array3 (\<lambda>b. 0) ?L) = (5, 5, 5)" by (simp add: stand_in_def)
  have 5: "parental_field ?h (compute_pdrf 1 5000 16 ?D (map_array3 (\<lambda>b. 0) ?L)) (5, 5, 5) = Inr ()"
    by (simp add: stand_in_def)
  have 6: "find_target ?h ?L (compute_pdrf 1 5000 16 ?D (map_array3 (\<lambda>b. 0) ?L)) = (5, 5, 5)"
    by (simp add: stand_in_def)
  have 7: "path_from_parents ?h () (5, 5, 5) = [(5, 5, 5)]" by (simp add: stand_in_def)
  have 8: "roll_invalidation_cube ?h ?L ?D [(5, 5, 5)] 10 10 (1, 1, 1) {}
             = (1, snd (clear_voxels ?L [(5, 5, 5)] {}))"
    by (simp add: stand_in_def clear_voxels_def one_voxel_def)
  have "TEASAR (Suc 0) ?h ?L ?D 10 10 (1, 1, 1) 5000 5000 16 (1 / 2) 0 1 = Some (Inr empty_skeleton)"
    by (rule single_voxel_gives_empty_skeleton[OF 1 2 3 4 5 6 7 8])
  then show ?thesis by (simp only: One_nat_def)
qed

section \<open>Powers of two and repeated squaring (C6)\<close>

lemma nat_and_pred_zero:
  fixes n :: nat
  assumes "0 < n" "n AND (n - 1) = 0"
  shows "\<exists>k. n = 2 ^ k"
  using assms
proof (induction n rule: less_induct)
  case (less n)
  have "n AND (n - 1) = of_bool (odd n \<and> odd (n - 1)) + 2 * ((n div 2) AND ((n - 1) div 2))"
    by (rule and_rec)
  with less.prems(2) have half: "(n div 2) AND ((n - 1) div 2) = 0" by simp
  show ?case
  proof (cases "odd n")
    case True
    then obtain m where m: "n = 2 * m + 1" by (auto elim: oddE)
    then have "(n - 1) div 2 = n div 2" by simp
    with half have "n div 2 = 0" by simp
    with m have "n = 1" by simp
    then have "n = 2 ^ 0" by simp
    then show ?thesis by blast
  next
    case False
    then obtain m where m: "n = 2 * m" by (auto elim: evenE)
    with less.prems(1) have mpos: "0 < m" by simp
    have "(n - 1) div 2 = m - 1" using m mpos by (cases m) simp_all
    with half m have "m AND (m - 1) = 0" by simp
    moreover have "m < n" using m mpos by simp
    ultimately obtain k where "m = 2 ^ k" using less.IH mpos by blast
    then have "n = 2 ^ Suc k" using m by simp
    then show ?thesis by blast
  qed
qed

lemma pow2_and_pred: "(2 ^ k :: int) AND (2 ^ k - 1) = 0"
proof -
  have "(2 ^ k :: int) AND (2 ^ k - 1) = take_bit k (2 ^ k)"
    by (simp add: take_bit_eq_mask mask_eq_exp_minus_1)
  also have "\<dots> = 0" by (simp add: take_bit_of_exp)
  finally show ?thesis .
qed

lemma is_power_of_two_iff: "is_power_of_two num \<longleftrightarrow> (\<exists>k. num = 2 ^ k)"
proof
  assume p: "is_power_of_two num"
  then have nz: "num \<noteq> 0" and a: "num AND (num - 1) = 0" by (simp_all add: is_power_of_two_def)
  have pos: "0 < num"
  proof (rule ccontr)
    assume "\<not> 0 < num"
    with nz have "num < 0" "num - 1 < 0" by simp_all
    then have "num AND (num - 1) < 0" by (simp add: and_negative_int_iff)
    with a show False by simp
  qed
  define n where "n = nat num"
  have n: "num = int n" "0 < n" using pos by (simp_all add: n_def)
  have "int (n AND (n - 1)) = int n AND int (n - 1)" by (rule of_nat_and_eq)
  also have "int (n - 1) = int n - 1" using n(2) by simp
  finally have "int (n AND (n - 1)) = 0" using a n(1) by simp
  then have "n AND (n - 1) = 0" by simp
  with n(2) obtain k where "n = 2 ^ k" using nat_and_pred_zero by blast
  then have "num = 2 ^ k" using n(1) by simp
  then show "\<exists>k. num = 2 ^ k" by blast
next
  assume "\<exists>k. num = 2 ^ k"
  then obtain k where "num = 2 ^ k" by blast
  then show "is_power_of_two num" by (simp add: is_power_of_two_def pow2_and_pred)
qed

declare ilog2.simps [simp del]

lemma ilog2_pow2: "ilog2 (2 ^ k) = k"
proof (induction k)
  case 0
  then show ?case by (subst ilog2.simps) simp
next
  case (Suc k)
  have "\<not> (2::nat) ^ Suc k < 2" by simp
  then have "ilog2 (2 ^ Suc k) = Suc (ilog2 (2 ^ Suc k div 2))"
    by (subst ilog2.simps) simp
  also have "\<dots> = Suc k" using Suc.IH by simp
  finally show ?case .
qed

lemma square_loop_eq: "square_loop k B = map_array3 (\<lambda>b. b ^ (2 ^ k)) B"
proof (induction k arbitrary: B)
  case 0
  then show ?case by (simp add: map_array3_def)
next
  case (Suc k)
  have "square_loop (Suc k) B = map_array3 (\<lambda>b. b ^ (2 ^ k)) (map_array3 (\<lambda>p. p * p) B)"
    using Suc.IH by simp
  also have "\<dots> = map_array3 (\<lambda>b. (b * b) ^ (2 ^ k)) B" by (simp add: map_array3_def)
  also have "(\<lambda>b::real. (b * b) ^ (2 ^ k)) = (\<lambda>b. b ^ (2 ^ Suc k))"
    by (rule ext) (simp add: power_mult power2_eq_square mult.commute)
  finally show ?case .
qed

lemma square_loop_powi:
  assumes "pdrf_exponent = 2 ^ k"
  shows "square_loop (ilog2 (nat pdrf_exponent)) B = map_array3 (\<lambda>b. b powi pdrf_exponent) B"
proof -
  have n: "nat pdrf_exponent = 2 ^ k" using assms(1) by (simp add: nat_power_eq)
  have "(\<lambda>b::real. b powi pdrf_exponent) = (\<lambda>b. b ^ (2 ^ k))"
  proof (rule ext)
    fix b :: real
    have "pdrf_exponent = int (2 ^ k)" using assms(1) by simp
    then show "b powi pdrf_exponent = b ^ (2 ^ k)" by (simp only: power_int_of_nat)
  qed
  moreover have "ilog2 (nat pdrf_exponent) = k" unfolding n by (rule ilog2_pow2)
  ultimately show ?thesis by (simp only: square_loop_eq)
qed



section \<open>The PDRF formula (C5)\<close>

lemma compute_pdrf_shape: "shape (compute_pdrf dbf_max pdrf_scale pdrf_exponent DBF DAF) = shape DBF"
proof -
  have "\<And>k B. shape (square_loop k B) = shape B" by (simp add: square_loop_eq map_array3_def)
  then show ?thesis by (simp add: compute_pdrf_def Let_def map_array3_def)
qed

lemma compute_pdrf_cell:
  "cell (compute_pdrf dbf_max pdrf_scale pdrf_exponent DBF DAF) v
   = cell DAF v + pdrf_scale * (1 - cell DBF v * (1 / dbf_max powr (101 / 100))) powi pdrf_exponent"
proof (cases "is_power_of_two pdrf_exponent \<and> pdrf_exponent < 2 ^ 16")
  case True
  then obtain k where k: "pdrf_exponent = 2 ^ k" using is_power_of_two_iff by blast
  let ?B = "map_array3 (\<lambda>d. 1 - d * (1 / dbf_max powr (101 / 100))) DBF"
  from k have "square_loop (ilog2 (nat pdrf_exponent)) ?B = map_array3 (\<lambda>b. b powi pdrf_exponent) ?B"
    by (rule square_loop_powi)
  then show ?thesis using True by (simp add: compute_pdrf_def Let_def map_array3_def)
next
  case False
  then show ?thesis by (auto simp: compute_pdrf_def Let_def map_array3_def)
qed








section \<open>No validation of the options (C9)\<close>

lemma compute_pdrf_exponent_zero:
  "cell (compute_pdrf dbf_max pdrf_scale 0 DBF DAF) v = cell DAF v + pdrf_scale"
  by (simp add: compute_pdrf_cell)

lemma downsample_step_zero: "downsample 0 path = Inl SliceStepZero"
  by (simp add: downsample_def py_slice_def)

lemma assemble_no_paths: "assemble fuel DBF path_downsample [] = Some (Inr empty_skeleton)"
  by (simp add: assemble_def path_union_def rows3_def rows2_def empty_skeleton_def)

lemma assemble_step_zero: "assemble fuel DBF 0 (path # paths) = Some (Inl SliceStepZero)"
  by (simp add: assemble_def downsample_step_zero)

text \<open>
  Claim C9, as amended. TEASAR checks none of its options. When no root is
  found (no DBF value above the threshold, and \<open>first_label\<close> finds no voxel),
  it returns the empty skeleton whatever the options are. An exponent of 0
  is accepted by compute\_pdrf, which then returns \<open>DAF + pdrf_scale\<close>. A stride
  of 0 fails only in the slicing of the downsampling step, after the path
  extraction, and only if a path was extracted.
\<close>

theorem options_are_not_validated:
  assumes "np_max DBF = Inr m" "\<not> soma_detection_threshold < m" "first_label h labels = None"
  shows "TEASAR fuel h labels DBF scale const anisotropy soma_detection_threshold pdrf_scale
           pdrf_exponent soma_invalidation_scale soma_invalidation_const path_downsample
           = Some (Inr empty_skeleton)
       \<and> cell (compute_pdrf dbf_max pdrf_scale 0 DBF DAF) v = cell DAF v + pdrf_scale
       \<and> assemble fuel DBF 0 [] = Some (Inr empty_skeleton)
       \<and> assemble fuel DBF 0 (path # paths) = Some (Inl SliceStepZero)"
  using TEASAR_no_root[OF assms] compute_pdrf_exponent_zero assemble_no_paths assemble_step_zero
  by simp

theorem options_are_not_validated_witness:
  "TEASAR 0 (stand_in (0, 0, 0) []) (no_voxels (2, 2, 2)) (zeros (2, 2, 2)) 10 10 (1, 1, 1) 5000 5000 0
     (1 / 2) 0 (- 3)
     = Some (Inr empty_skeleton)
   \<and> cell (compute_pdrf 1 5000 0 (zeros (2, 2, 2)) (zeros (2, 2, 2))) (0, 0, 0)
       = cell (zeros (2, 2, 2)) (0, 0, 0) + 5000
   \<and> assemble 0 (zeros (2, 2, 2)) 0 [] = Some (Inr empty_skeleton)
   \<and> assemble 0 (zeros (2, 2, 2)) 0 ([(0, 0, 0)] # []) = Some (Inl SliceStepZero)"
proof -
  have 1: "np_max (zeros (2, 2, 2)) = Inr 0"
    by (rule np_max_eqI[where w = "(0, 0, 0)"]) (simp_all add: zeros_def)
  have 2: "\<not> (5000::real) < 0" by simp
  have 3: "first_label (stand_in (0, 0, 0) []) (no_voxels (2, 2, 2)) = None"
    by (simp add: stand_in_def no_voxels_def)
  show ?thesis by (rule options_are_not_validated[OF 1 2 3])
qed

text \<open>
  As stated, C9 fails: with a negative scale, a negative const, a negative
  anisotropy component, exponent 0, a negative soma invalidation const and
  stride 0, TEASAR returns normally on a mask without voxels.
\<close>

theorem invalid_options_accepted:
  "TEASAR 0 (stand_in (0, 0, 0) []) (no_voxels (1, 1, 1)) (zeros (1, 1, 1)) (- 10) (- 10) (1, 1, - 1)
     5000 5000 0 (1 / 2) (- 1) 0
   = Some (Inr empty_skeleton)"
proof (rule TEASAR_no_root)
  show "np_max (zeros (1, 1, 1)) = Inr 0"
    by (rule np_max_eqI[where w = "(0, 0, 0)"]) (simp_all add: zeros_def)
  show "\<not> (5000::real) < 0" by simp
  show "first_label (stand_in (0, 0, 0) []) (no_voxels (1, 1, 1)) = None"
    by (simp add: stand_in_def no_voxels_def)
qed

section \<open>Termination of the path extraction (C1)\<close>

declare compute_paths_loop.simps [simp del]















section \<open>The union of the paths (C2)\<close>

lemma ancestors_chain:
  assumes "single_parent G" "(a, x) \<in> G\<^sup>*" "(b, x) \<in> G\<^sup>*"
  shows "(a, b) \<in> G\<^sup>* \<or> (b, a) \<in> G\<^sup>*"
  using assms(2,3)
proof (induction arbitrary: b rule: rtrancl_induct)
  case base
  then show ?case by simp
next
  case (step y z)
  from step.prems show ?case
  proof (cases rule: rtranclE)
    case base
    then have "(a, b) \<in> G\<^sup>*" using step.hyps by auto
    then show ?thesis by simp
  next
    case (step y')
    then have "y' = y" using assms(1) \<open>(y, z) \<in> G\<close> unfolding single_parent_def by blast
    then have "(b, y) \<in> G\<^sup>*" using step by simp
    then show ?thesis by (rule step.IH)
  qed
qed

lemma no_cycle_below_root:
  assumes "single_parent G" "r \<notin> snd ` G" "(r, x) \<in> G\<^sup>*"
  shows "(x, x) \<notin> G\<^sup>+"
  using assms(3)
proof (induction rule: rtrancl_induct)
  case base
  show ?case
  proof
    assume "(r, r) \<in> G\<^sup>+"
    then obtain y where "(y, r) \<in> G" by (meson tranclE)
    then have "r \<in> snd ` G" by force
    with assms(2) show False by simp
  qed
next
  case (step y z)
  show ?case
  proof
    assume "(z, z) \<in> G\<^sup>+"
    then obtain y' where y': "(z, y') \<in> G\<^sup>*" "(y', z) \<in> G" by (meson tranclE trancl_into_rtrancl rtrancl.rtrancl_refl)
    then have "y' = y" using assms(1) step.hyps(2) unfolding single_parent_def by blast
    with y' have "(z, y) \<in> G\<^sup>*" by simp
    with step.hyps(2) have "(y, y) \<in> G\<^sup>+" by (meson rtrancl_into_trancl2)
    with step.IH show False by simp
  qed
qed

lemma children_disjoint:
  assumes "single_parent G" "(s, s) \<notin> G\<^sup>+" "(s, c1) \<in> G" "(s, c2) \<in> G" "c1 \<noteq> c2"
  shows "G\<^sup>* `` {c1} \<inter> G\<^sup>* `` {c2} = {}"
proof (rule ccontr)
  assume "G\<^sup>* `` {c1} \<inter> G\<^sup>* `` {c2} \<noteq> {}"
  then obtain x where x: "(c1, x) \<in> G\<^sup>*" "(c2, x) \<in> G\<^sup>*" by blast
  have key: "False" if "(a, b) \<in> G\<^sup>*" "a \<noteq> b" "(s, a) \<in> G" "(s, b) \<in> G" for a b
  proof -
    from that(1,2) have "(a, b) \<in> G\<^sup>+" by (meson rtranclD)
    then obtain y where y: "(a, y) \<in> G\<^sup>*" "(y, b) \<in> G" by (meson tranclE trancl_into_rtrancl rtrancl.rtrancl_refl)
    then have "y = s" using assms(1) that(4) unfolding single_parent_def by blast
    with y have "(a, s) \<in> G\<^sup>*" by simp
    with that(3) have "(s, s) \<in> G\<^sup>+" by (meson rtrancl_into_trancl2)
    with assms(2) show False by simp
  qed
  from ancestors_chain[OF assms(1) x] show False
    using key assms(3,4,5) by blast
qed


lemma reach_finite:
  assumes "finite G" shows "finite (G\<^sup>* `` set stack)"
proof -
  have "G\<^sup>* `` set stack \<subseteq> set stack \<union> snd ` G"
  proof
    fix x assume "x \<in> G\<^sup>* `` set stack"
    then obtain s where s: "s \<in> set stack" "(s, x) \<in> G\<^sup>*" by blast
    from s(2) show "x \<in> set stack \<union> snd ` G"
    proof (cases rule: rtranclE)
      case base
      with s(1) show ?thesis by simp
    next
      case (step y)
      then have "x \<in> snd ` G" by force
      then show ?thesis by simp
    qed
  qed
  moreover have "finite (set stack \<union> snd ` G)" using assms by simp
  ultimately show ?thesis by (rule finite_subset)
qed

lemma reach_step:
  assumes "G = tree_rel tree"
  shows "G\<^sup>* `` {s} = insert s (G\<^sup>* `` set (tree s))"
proof
  show "G\<^sup>* `` {s} \<subseteq> insert s (G\<^sup>* `` set (tree s))"
  proof
    fix x assume "x \<in> G\<^sup>* `` {s}"
    then have "(s, x) \<in> G\<^sup>*" by simp
    then show "x \<in> insert s (G\<^sup>* `` set (tree s))"
    proof (cases rule: converse_rtranclE)
      case base
      then show ?thesis by simp
    next
      case (step y)
      then have "y \<in> set (tree s)" using assms by (simp add: tree_rel_def)
      with step(2) show ?thesis by blast
    qed
  qed
next
  show "insert s (G\<^sup>* `` set (tree s)) \<subseteq> G\<^sup>* `` {s}"
  proof
    fix x assume "x \<in> insert s (G\<^sup>* `` set (tree s))"
    then consider "x = s" | c where "c \<in> set (tree s)" "(c, x) \<in> G\<^sup>*" by blast
    then show "x \<in> G\<^sup>* `` {s}"
    proof cases
      case 1
      then show ?thesis by simp
    next
      case 2
      then have "(s, c) \<in> G" using assms by (simp add: tree_rel_def)
      with 2(2) have "(s, x) \<in> G\<^sup>*" by (meson converse_rtrancl_into_rtrancl)
      then show ?thesis by simp
    qed
  qed
qed

lemma forest_stack_pop:
  assumes sp: "single_parent G" and G: "G = tree_rel tree" and d: "\<And>p. distinct (tree p)"
    and inv: "forest_stack G (s # rest)"
  shows "forest_stack G (rev (tree s) @ rest)"
    and "G\<^sup>* `` set (rev (tree s) @ rest) = G\<^sup>* `` set (s # rest) - {s}"
proof -
  have dist: "distinct (s # rest)"
    and disj: "\<And>a b. a \<in> set (s # rest) \<Longrightarrow> b \<in> set (s # rest) \<Longrightarrow> a \<noteq> b
                \<Longrightarrow> G\<^sup>* `` {a} \<inter> G\<^sup>* `` {b} = {}"
    and acyc: "\<And>x. x \<in> G\<^sup>* `` set (s # rest) \<Longrightarrow> (x, x) \<notin> G\<^sup>+"
    using inv unfolding forest_stack_def by blast+
  have s_acyc: "(s, s) \<notin> G\<^sup>+" by (rule acyc) auto
  have child: "(s, c) \<in> G" if "c \<in> set (tree s)" for c using that G by (simp add: tree_rel_def)
  have child_ne: "c \<noteq> s" if "c \<in> set (tree s)" for c
    using child[OF that] s_acyc by auto
  have sub: "G\<^sup>* `` {c} \<subseteq> G\<^sup>* `` {s}" if "c \<in> set (tree s)" for c
    using reach_step[OF G, of s] that by blast
  have s_not_below_child: "s \<notin> G\<^sup>* `` set (tree s)"
  proof
    assume "s \<in> G\<^sup>* `` set (tree s)"
    then obtain c where c: "c \<in> set (tree s)" "(c, s) \<in> G\<^sup>*" by blast
    with child[OF c(1)] have "(s, s) \<in> G\<^sup>+" by (meson rtrancl_into_trancl2)
    with s_acyc show False by simp
  qed
  have s_not_below_rest: "s \<notin> G\<^sup>* `` set rest"
  proof
    assume "s \<in> G\<^sup>* `` set rest"
    then obtain t where t: "t \<in> set rest" "(t, s) \<in> G\<^sup>*" by blast
    then have "t \<noteq> s" using dist by auto
    then have "G\<^sup>* `` {t} \<inter> G\<^sup>* `` {s} = {}" using disj t(1) by simp
    moreover have "s \<in> G\<^sup>* `` {t} \<inter> G\<^sup>* `` {s}" using t(2) by simp
    ultimately show False by blast
  qed
  have child_not_rest: "c \<notin> set rest" if "c \<in> set (tree s)" for c
  proof
    assume "c \<in> set rest"
    then have "G\<^sup>* `` {s} \<inter> G\<^sup>* `` {c} = {}" using disj child_ne[OF that] by simp
    moreover have "c \<in> G\<^sup>* `` {s} \<inter> G\<^sup>* `` {c}" using child[OF that] by auto
    ultimately show False by blast
  qed
  show reach: "G\<^sup>* `` set (rev (tree s) @ rest) = G\<^sup>* `` set (s # rest) - {s}"
  proof -
    have "G\<^sup>* `` set (s # rest) = insert s (G\<^sup>* `` set (tree s)) \<union> G\<^sup>* `` set rest"
      using reach_step[OF G, of s] by auto
    moreover have "G\<^sup>* `` set (rev (tree s) @ rest) = G\<^sup>* `` set (tree s) \<union> G\<^sup>* `` set rest"
      by auto
    ultimately show ?thesis using s_not_below_child s_not_below_rest by auto
  qed
  show "forest_stack G (rev (tree s) @ rest)"
    unfolding forest_stack_def
  proof (intro conjI ballI impI)
    show "distinct (rev (tree s) @ rest)"
      using d[of s] dist child_not_rest by auto
  next
    fix a b
    assume a: "a \<in> set (rev (tree s) @ rest)" and b: "b \<in> set (rev (tree s) @ rest)" and ne: "a \<noteq> b"
    have cr: "G\<^sup>* `` {c} \<inter> G\<^sup>* `` {t} = {}" if "c \<in> set (tree s)" "t \<in> set rest" for c t
    proof -
      have "t \<noteq> s" using that(2) dist by auto
      then have "G\<^sup>* `` {s} \<inter> G\<^sup>* `` {t} = {}" using disj that(2) by simp
      with sub[OF that(1)] show ?thesis by blast
    qed
    consider "a \<in> set (tree s)" "b \<in> set (tree s)" | "a \<in> set (tree s)" "b \<in> set rest"
      | "a \<in> set rest" "b \<in> set (tree s)" | "a \<in> set rest" "b \<in> set rest"
      using a b by auto
    then show "G\<^sup>* `` {a} \<inter> G\<^sup>* `` {b} = {}"
    proof cases
      case 1
      then show ?thesis using children_disjoint[OF sp s_acyc child child ne] by simp
    next
      case 2
      then show ?thesis by (rule cr)
    next
      case 3
      then show ?thesis using cr[of b a] by blast
    next
      case 4
      then show ?thesis using disj ne by simp
    qed
  next
    fix x assume "x \<in> G\<^sup>* `` set (rev (tree s) @ rest)"
    then have "x \<in> G\<^sup>* `` set (s # rest)" using reach by simp
    then show "(x, x) \<notin> G\<^sup>+" by (rule acyc)
  qed
qed


lemma walk_forest:
  assumes sp: "single_parent G" and G: "G = tree_rel tree" and d: "\<And>p. distinct (tree p)"
    and fin: "finite G"
  shows "forest_stack G stack \<Longrightarrow> card (G\<^sup>* `` set stack) \<le> fuel \<Longrightarrow>
         \<exists>E1. walk fuel tree stack E0 = Some (E0 @ E1) \<and> distinct E1
              \<and> set E1 = {(p, c). (p, c) \<in> G \<and> p \<in> G\<^sup>* `` set stack}"
proof (induction fuel arbitrary: stack E0)
  case 0
  have "finite (G\<^sup>* `` set stack)" using fin by (rule reach_finite)
  with 0 have "G\<^sup>* `` set stack = {}" by simp
  then have "stack = []" by (cases stack) auto
  then show ?case by simp
next
  case (Suc fuel)
  show ?case
  proof (cases stack)
    case Nil
    then show ?thesis by simp
  next
    case (Cons s rest)
    let ?S' = "rev (tree s) @ rest"
    have inv': "forest_stack G ?S'"
      and reach: "G\<^sup>* `` set ?S' = G\<^sup>* `` set (s # rest) - {s}"
      using forest_stack_pop[OF sp G d] Suc.prems(1) Cons by simp_all
    have s_in: "s \<in> G\<^sup>* `` set (s # rest)" by auto
    have finS: "finite (G\<^sup>* `` set (s # rest))" using fin by (rule reach_finite)
    have "card (G\<^sup>* `` set ?S') = card (G\<^sup>* `` set (s # rest)) - 1"
      unfolding reach using s_in finS by simp
    moreover have "0 < card (G\<^sup>* `` set (s # rest))" using s_in finS by (auto simp: card_gt_0_iff)
    ultimately have "card (G\<^sup>* `` set ?S') \<le> fuel" using Suc.prems(2) Cons by simp
    from Suc.IH[OF inv' this, of "E0 @ map (Pair s) (tree s)"]
    obtain E1 where E1: "walk fuel tree ?S' (E0 @ map (Pair s) (tree s)) = Some ((E0 @ map (Pair s) (tree s)) @ E1)"
      "distinct E1" "set E1 = {(p, c). (p, c) \<in> G \<and> p \<in> G\<^sup>* `` set ?S'}"
      by blast
    let ?E = "map (Pair s) (tree s) @ E1"
    have w: "walk (Suc fuel) tree stack E0 = Some (E0 @ ?E)" using E1(1) Cons by simp
    have s_not: "s \<notin> G\<^sup>* `` set ?S'" unfolding reach by simp
    have dm: "distinct (map (Pair s) (tree s))" using d[of s] by (simp add: distinct_map inj_on_def)
    have "set (map (Pair s) (tree s)) \<inter> set E1 = {}"
    proof (rule ccontr)
      assume "set (map (Pair s) (tree s)) \<inter> set E1 \<noteq> {}"
      then obtain c where "(s, c) \<in> set E1" by auto
      then have "s \<in> G\<^sup>* `` set ?S'" unfolding E1(3) by simp
      with s_not show False by simp
    qed
    then have dE: "distinct ?E" using dm E1(2) by simp
    have "set ?E = {(p, c). (p, c) \<in> G \<and> p \<in> G\<^sup>* `` set (s # rest)}"
    proof -
      have a: "set (map (Pair s) (tree s)) = {(p, c). (p, c) \<in> G \<and> p = s}"
        using G by (auto simp: tree_rel_def)
      have b: "G\<^sup>* `` set (s # rest) = insert s (G\<^sup>* `` set ?S')"
        unfolding reach using s_in by auto
      show ?thesis unfolding set_append a E1(3) b by auto
    qed
    then show ?thesis using w dE Cons by blast
  qed
qed


lemma index_map_None:
  assumes "\<forall>v i. tree_id v = Some i \<longleftrightarrow> i < length vertices \<and> vertices ! i = v"
  shows "tree_id v = None \<longleftrightarrow> v \<notin> set vertices"
proof
  assume "tree_id v = None"
  show "v \<notin> set vertices"
  proof
    assume "v \<in> set vertices"
    then obtain i where "i < length vertices" "vertices ! i = v" by (meson in_set_conv_nth)
    then have "tree_id v = Some i" using assms by blast
    with \<open>tree_id v = None\<close> show False by simp
  qed
next
  assume n: "v \<notin> set vertices"
  show "tree_id v = None"
  proof (rule ccontr)
    assume "tree_id v \<noteq> None"
    then obtain i where "tree_id v = Some i" by blast
    then have "i < length vertices" "vertices ! i = v" using assms by blast+
    then have "v \<in> set vertices" by (metis nth_mem)
    with n show False by simp
  qed
qed

lemma register_vertex_props:
  assumes "ct = length vertices" "distinct vertices"
    and "\<forall>v i. tree_id v = Some i \<longleftrightarrow> i < length vertices \<and> vertices ! i = v"
  shows "\<exists>tree_id' vertices'. register_vertex w (tree, tree_id, vertices, ct)
            = (tree, tree_id', vertices', length vertices')
          \<and> distinct vertices'
          \<and> (\<forall>v i. tree_id' v = Some i \<longleftrightarrow> i < length vertices' \<and> vertices' ! i = v)
          \<and> set vertices' = insert w (set vertices)"
proof (cases "tree_id w = None")
  case True
  then have nw: "w \<notin> set vertices" using index_map_None[OF assms(3)] by simp
  let ?V = "vertices @ [w]" and ?T = "tree_id(w \<mapsto> ct)"
  have r: "register_vertex w (tree, tree_id, vertices, ct) = (tree, ?T, ?V, length ?V)"
    using True assms(1) by (simp add: register_vertex_def)
  have dv: "distinct ?V" using assms(2) nw by simp
  have im: "\<forall>v i. ?T v = Some i \<longleftrightarrow> i < length ?V \<and> ?V ! i = v"
  proof (intro allI)
    fix v i
    show "?T v = Some i \<longleftrightarrow> i < length ?V \<and> ?V ! i = v"
    proof (cases "v = w")
      case True
      have "(i < length ?V \<and> ?V ! i = w) \<longleftrightarrow> i = length vertices"
      proof
        assume a: "i < length ?V \<and> ?V ! i = w"
        show "i = length vertices"
        proof (rule ccontr)
          assume "i \<noteq> length vertices"
          with a have "i < length vertices" by simp
          then have "?V ! i \<in> set vertices" by (simp add: nth_append)
          with a nw show False by simp
        qed
      next
        assume "i = length vertices"
        then show "i < length ?V \<and> ?V ! i = w" by simp
      qed
      then show ?thesis using True assms(1) by auto
    next
      case False
      have "(i < length ?V \<and> ?V ! i = v) \<longleftrightarrow> (i < length vertices \<and> vertices ! i = v)"
        using False by (auto simp: nth_append less_Suc_eq)
      moreover have "tree_id v = Some i \<longleftrightarrow> i < length vertices \<and> vertices ! i = v"
        using assms(3) by blast
      moreover have "?T v = tree_id v" using False by simp
      ultimately show ?thesis by (simp only:)
    qed
  qed
  show ?thesis using r dv im by (intro exI[of _ ?T] exI[of _ ?V]) simp
next
  case False
  then have "w \<in> set vertices" using index_map_None[OF assms(3), of w] by simp
  then have "set vertices = insert w (set vertices)" by auto
  moreover have "register_vertex w (tree, tree_id, vertices, ct) = (tree, tree_id, vertices, length vertices)"
    using False assms(1) by (simp add: register_vertex_def)
  ultimately show ?thesis using assms by (intro exI[of _ tree_id] exI[of _ vertices]) simp
qed

lemma add_link_inv:
  assumes "tree_inv L st"
  shows "tree_inv (L @ [(p, c)]) (add_link p c st)"
proof -
  obtain tree tree_id vertices ct where st: "st = (tree, tree_id, vertices, ct)" by (cases st) auto
  from assms st have a: "ct = length vertices" "distinct vertices"
    "\<forall>v i. tree_id v = Some i \<longleftrightarrow> i < length vertices \<and> vertices ! i = v"
    "set vertices = fst ` set L \<union> snd ` set L"
    "\<forall>v. distinct (tree v) \<and> set (tree v) = {c. (v, c) \<in> set L}"
    by (simp_all add: tree_inv_def)
  let ?tree = "tree(p := (if c \<in> set (tree p) then tree p else tree p @ [c]))"
  from register_vertex_props[OF a(1,2,3), of p ?tree]
  obtain T1 V1 where 1: "register_vertex p (?tree, tree_id, vertices, ct) = (?tree, T1, V1, length V1)"
    "distinct V1" "\<forall>v i. T1 v = Some i \<longleftrightarrow> i < length V1 \<and> V1 ! i = v"
    "set V1 = insert p (set vertices)" by blast
  from register_vertex_props[OF refl 1(2,3), of c ?tree]
  obtain T2 V2 where 2: "register_vertex c (?tree, T1, V1, length V1) = (?tree, T2, V2, length V2)"
    "distinct V2" "\<forall>v i. T2 v = Some i \<longleftrightarrow> i < length V2 \<and> V2 ! i = v"
    "set V2 = insert c (set V1)" by blast
  have al: "add_link p c st = (?tree, T2, V2, length V2)"
    using st 1(1) 2(1) by (simp add: add_link_def)
  have sv: "set V2 = fst ` set (L @ [(p, c)]) \<union> snd ` set (L @ [(p, c)])"
    using 2(4) 1(4) a(4) by auto
  have tr: "\<forall>v. distinct (?tree v) \<and> set (?tree v) = {c'. (v, c') \<in> set (L @ [(p, c)])}"
  proof
    fix v
    have dv: "distinct (tree v)" and sv: "set (tree v) = {c'. (v, c') \<in> set L}"
      using a(5) by blast+
    show "distinct (?tree v) \<and> set (?tree v) = {c'. (v, c') \<in> set (L @ [(p, c)])}"
    proof (cases "v = p")
      case True
      then show ?thesis using dv sv by auto
    next
      case False
      then show ?thesis using dv sv by auto
    qed
  qed
  show ?thesis unfolding al tree_inv_def using 2(2,3) sv tr by simp
qed

lemma fold_add_link_inv:
  "tree_inv L (fold (\<lambda>(p, c). add_link p c) L ((\<lambda>v. []), Map.empty, [], 0))"
proof (induction L rule: rev_induct)
  case Nil
  then show ?case by (simp add: tree_inv_def)
next
  case (snoc x xs)
  obtain p c where x: "x = (p, c)" by (cases x) auto
  have "fold (\<lambda>(p, c). add_link p c) (xs @ [x]) ((\<lambda>v. []), Map.empty, [], 0)
        = add_link p c (fold (\<lambda>(p, c). add_link p c) xs ((\<lambda>v. []), Map.empty, [], 0))"
    using x by simp
  then show ?case using add_link_inv[OF snoc.IH, of p c] x by simp
qed

lemma zip_tl_conv: "zip path (tl path) = map (\<lambda>i. (path ! i, path ! (i + 1))) [0..<length path - 1]"
proof (rule nth_equalityI)
  show "length (zip path (tl path)) = length (map (\<lambda>i. (path ! i, path ! (i + 1))) [0..<length path - 1])"
    by simp
next
  fix i assume "i < length (zip path (tl path))"
  then have i: "i < length path - 1" by simp
  then show "zip path (tl path) ! i = map (\<lambda>i. (path ! i, path ! (i + 1))) [0..<length path - 1] ! i"
    by (simp add: nth_tl)
qed

lemma add_path_links: "add_path path st = fold (\<lambda>(p, c). add_link p c) (zip path (tl path)) st"
  unfolding add_path_def zip_tl_conv by (simp add: fold_map comp_def)

lemma build_tree_links:
  "build_tree paths = fold (\<lambda>(p, c). add_link p c) (links paths) ((\<lambda>v. []), Map.empty, [], 0)"
proof -
  have "fold add_path paths st = fold (\<lambda>(p, c). add_link p c) (links paths) st" for st
  proof (induction paths arbitrary: st)
    case Nil
    then show ?case by (simp add: links_def)
  next
    case (Cons q qs)
    have "links (q # qs) = zip q (tl q) @ links qs" by (simp add: links_def)
    then show ?case using Cons.IH by (simp add: add_path_links)
  qed
  then show ?thesis by (simp add: build_tree_def)
qed

lemma build_tree_inv: "tree_inv (links paths) (build_tree paths)"
  unfolding build_tree_links by (rule fold_add_link_inv)


lemma emit_edges_ok:
  assumes "\<And>c. c \<in> set cs \<Longrightarrow> tree_id p \<noteq> None \<and> tree_id c \<noteq> None"
  shows "emit_edges tree_id p cs = Inr (map (edge_ids tree_id) (map (Pair p) cs))"
  using assms
proof (induction cs)
  case Nil
  then show ?case by simp
next
  case (Cons c cs)
  have "tree_id p \<noteq> None" "tree_id c \<noteq> None" using Cons.prems[of c] by simp_all
  then obtain i j where ij: "tree_id p = Some i" "tree_id c = Some j" by blast
  have "emit_edges tree_id p cs = Inr (map (edge_ids tree_id) (map (Pair p) cs))"
    by (rule Cons.IH) (use Cons.prems in auto)
  then show ?case using ij by (simp add: edge_ids_def)
qed

lemma traverse_walk:
  assumes "\<And>p c. c \<in> set (tree p) \<Longrightarrow> tree_id p \<noteq> None \<and> tree_id c \<noteq> None"
  shows "traverse fuel tree tree_id stack (map (edge_ids tree_id) acc)
         = map_option (\<lambda>E. Inr (map (edge_ids tree_id) E)) (walk fuel tree stack acc)"
proof (induction fuel arbitrary: stack acc)
  case 0
  then show ?case by (cases stack) simp_all
next
  case (Suc fuel)
  show ?case
  proof (cases stack)
    case Nil
    then show ?thesis by simp
  next
    case (Cons s rest)
    have e: "emit_edges tree_id s (tree s) = Inr (map (edge_ids tree_id) (map (Pair s) (tree s)))"
      by (rule emit_edges_ok) (use assms in auto)
    have "traverse (Suc fuel) tree tree_id (s # rest) (map (edge_ids tree_id) acc)
          = traverse fuel tree tree_id (rev (tree s) @ rest)
              (map (edge_ids tree_id) (acc @ map (Pair s) (tree s)))"
      using e by simp
    also have "\<dots> = map_option (\<lambda>E. Inr (map (edge_ids tree_id) E))
                       (walk fuel tree (rev (tree s) @ rest) (acc @ map (Pair s) (tree s)))"
      by (rule Suc.IH)
    finally show ?thesis using Cons by simp
  qed
qed

lemma path_reaches:
  assumes "i < length q"
  shows "(q ! 0, q ! i) \<in> (set (zip q (tl q)))\<^sup>*"
  using assms
proof (induction i)
  case 0
  then show ?case by simp
next
  case (Suc i)
  then have "(q ! 0, q ! i) \<in> (set (zip q (tl q)))\<^sup>*" by simp
  moreover have "(q ! i, q ! Suc i) \<in> set (zip q (tl q))"
  proof -
    have "i < length (zip q (tl q))" using Suc.prems by simp
    then have "zip q (tl q) ! i \<in> set (zip q (tl q))" by (rule nth_mem)
    moreover have "zip q (tl q) ! i = (q ! i, q ! Suc i)" using Suc.prems by (simp add: nth_tl)
    ultimately show ?thesis by simp
  qed
  ultimately show ?case by (rule rtrancl_into_rtrancl)
qed

lemma links_reached:
  assumes "\<forall>q\<in>set paths. q \<noteq> [] \<and> hd q = r" "(p, c) \<in> set (links paths)"
  shows "(r, p) \<in> (set (links paths))\<^sup>*"
proof -
  from assms(2) obtain q where q: "q \<in> set paths" "(p, c) \<in> set (zip q (tl q))"
    by (auto simp: links_def)
  then obtain i where i: "i < length (zip q (tl q))" "zip q (tl q) ! i = (p, c)"
    by (meson in_set_conv_nth)
  then have il: "i < length q" and pi: "q ! i = p" by (auto simp: nth_tl)
  have "q ! 0 = r" using assms(1) q(1) by (metis hd_conv_nth)
  with path_reaches[OF il] pi have "(r, p) \<in> (set (zip q (tl q)))\<^sup>*" by simp
  moreover have "set (zip q (tl q)) \<subseteq> set (links paths)" using q(1) by (auto simp: links_def)
  ultimately show ?thesis by (meson rtrancl_mono subsetD)
qed


lemma path_union_core:
  assumes inv: "tree_inv L (tree, tree_id, V, ct)"
    and sp: "single_parent (set L)"
    and nr: "r \<notin> snd ` set L"
    and fuel: "length L < fuel"
  shows "\<exists>E1. traverse fuel tree tree_id [r] [] = Some (Inr (map (edge_ids tree_id) E1))
          \<and> distinct (map (edge_ids tree_id) E1)
          \<and> distinct (map snd (map (edge_ids tree_id) E1))
          \<and> (\<forall>e\<in>set E1. fst (edge_ids tree_id e) < length V \<and> snd (edge_ids tree_id e) < length V
                \<and> fst (edge_ids tree_id e) \<noteq> snd (edge_ids tree_id e)
                \<and> V ! fst (edge_ids tree_id e) = fst e \<and> V ! snd (edge_ids tree_id e) = snd e)
          \<and> set E1 = {(p, c). (p, c) \<in> set L \<and> (r, p) \<in> (set L)\<^sup>*}
          \<and> acyclic (set E1)"
proof -
  let ?G = "set L"
  from inv have im: "\<forall>v i. tree_id v = Some i \<longleftrightarrow> i < length V \<and> V ! i = v"
    and sv: "set V = fst ` set L \<union> snd ` set L"
    and tr: "\<forall>v. distinct (tree v) \<and> set (tree v) = {c. (v, c) \<in> set L}"
    by (simp_all add: tree_inv_def)
  have G: "?G = tree_rel tree"
  proof -
    have "set (tree v) = {c. (v, c) \<in> set L}" for v using tr by blast
    then show ?thesis by (auto simp: tree_rel_def)
  qed
  have d: "\<And>p. distinct (tree p)" using tr by blast
  have idx: "tree_id v = Some (the (tree_id v)) \<and> the (tree_id v) < length V \<and> V ! the (tree_id v) = v"
    if "v \<in> set V" for v
  proof -
    from that have "tree_id v \<noteq> None" using index_map_None[OF im, of v] by simp
    then obtain i where i: "tree_id v = Some i" by blast
    then have "i < length V \<and> V ! i = v" using im by blast
    with i show ?thesis by simp
  qed
  have inV: "p \<in> set V \<and> c \<in> set V" if "(p, c) \<in> ?G" for p c
    using that sv by force
  have ids: "\<And>p c. c \<in> set (tree p) \<Longrightarrow> tree_id p \<noteq> None \<and> tree_id c \<noteq> None"
  proof -
    fix p c assume "c \<in> set (tree p)"
    then have "(p, c) \<in> ?G" using G by (simp add: tree_rel_def)
    then have "p \<in> set V" "c \<in> set V" using inV by blast+
    then have "tree_id p = Some (the (tree_id p))" "tree_id c = Some (the (tree_id c))"
      using idx by blast+
    then show "tree_id p \<noteq> None \<and> tree_id c \<noteq> None" by (metis option.distinct(1))
  qed
  have nocyc: "(x, x) \<notin> ?G\<^sup>+" if "(r, x) \<in> ?G\<^sup>*" for x
    using sp nr that by (rule no_cycle_below_root)
  have fs: "forest_stack ?G [r]"
    unfolding forest_stack_def using nocyc by auto
  have "?G\<^sup>* `` set [r] \<subseteq> insert r (snd ` ?G)"
  proof
    fix x assume "x \<in> ?G\<^sup>* `` set [r]"
    then have "(r, x) \<in> ?G\<^sup>*" by simp
    then show "x \<in> insert r (snd ` ?G)"
    proof (cases rule: rtranclE)
      case base
      then show ?thesis by simp
    next
      case (step y)
      then have "x \<in> snd ` ?G" by force
      then show ?thesis by simp
    qed
  qed
  then have "card (?G\<^sup>* `` set [r]) \<le> card (insert r (snd ` ?G))"
    by (intro card_mono) simp_all
  also have "\<dots> \<le> Suc (card (snd ` ?G))" by (simp add: card_insert_if)
  also have "\<dots> \<le> Suc (card ?G)" by (simp add: card_image_le)
  also have "\<dots> \<le> Suc (length L)" by (simp add: card_length)
  finally have cb: "card (?G\<^sup>* `` set [r]) \<le> fuel" using fuel by simp
  from walk_forest[OF sp G d _ fs cb, of "[]"]
  obtain E1 where E1: "walk fuel tree [r] [] = Some E1" "distinct E1"
    "set E1 = {(p, c). (p, c) \<in> ?G \<and> p \<in> ?G\<^sup>* `` set [r]}"
    by auto
  have sE: "set E1 = {(p, c). (p, c) \<in> set L \<and> (r, p) \<in> (set L)\<^sup>*}"
    unfolding E1(3) by auto
  have t: "traverse fuel tree tree_id [r] [] = Some (Inr (map (edge_ids tree_id) E1))"
    using traverse_walk[OF ids, where fuel = fuel and stack = "[r]" and acc = "[]"] E1(1) by simp
  have eV: "fst e \<in> set V \<and> snd e \<in> set V" if "e \<in> set E1" for e
  proof -
    from that sE have "(fst e, snd e) \<in> ?G" by auto
    then show ?thesis by (rule inV)
  qed
  have inj: "inj_on (edge_ids tree_id) (set E1)"
  proof (rule inj_onI)
    fix e e' assume e: "e \<in> set E1" "e' \<in> set E1" "edge_ids tree_id e = edge_ids tree_id e'"
    have "fst e = V ! the (tree_id (fst e))" "snd e = V ! the (tree_id (snd e))"
      using idx eV[OF e(1)] by simp_all
    moreover have "fst e' = V ! the (tree_id (fst e'))" "snd e' = V ! the (tree_id (snd e'))"
      using idx eV[OF e(2)] by simp_all
    ultimately show "e = e'" using e(3) by (simp add: edge_ids_def prod_eq_iff)
  qed
  have dE: "distinct (map (edge_ids tree_id) E1)" using E1(2) inj by (simp add: distinct_map)
  have inj_snd: "inj_on (\<lambda>e. snd (edge_ids tree_id e)) (set E1)"
  proof (rule inj_onI)
    fix e e' assume e: "e \<in> set E1" "e' \<in> set E1" "snd (edge_ids tree_id e) = snd (edge_ids tree_id e')"
    have "snd e = V ! the (tree_id (snd e))" using idx eV[OF e(1)] by simp
    moreover have "snd e' = V ! the (tree_id (snd e'))" using idx eV[OF e(2)] by simp
    ultimately have c: "snd e = snd e'" using e(3) by (simp add: edge_ids_def)
    have "(fst e, snd e) \<in> ?G" "(fst e', snd e') \<in> ?G" using e(1,2) sE by auto
    with c have "fst e = fst e'" using sp unfolding single_parent_def by metis
    with c show "e = e'" by (simp add: prod_eq_iff)
  qed
  have dS: "distinct (map snd (map (edge_ids tree_id) E1))"
    using E1(2) inj_snd by (simp add: distinct_map comp_def)
  have props: "\<forall>e\<in>set E1. fst (edge_ids tree_id e) < length V \<and> snd (edge_ids tree_id e) < length V
                \<and> fst (edge_ids tree_id e) \<noteq> snd (edge_ids tree_id e)
                \<and> V ! fst (edge_ids tree_id e) = fst e \<and> V ! snd (edge_ids tree_id e) = snd e"
  proof
    fix e assume e: "e \<in> set E1"
    have a: "the (tree_id (fst e)) < length V" "V ! the (tree_id (fst e)) = fst e"
      "the (tree_id (snd e)) < length V" "V ! the (tree_id (snd e)) = snd e"
      using idx eV[OF e] by simp_all
    have ge: "(fst e, snd e) \<in> ?G" and re: "(r, fst e) \<in> ?G\<^sup>*" using e sE by auto
    have "fst e \<noteq> snd e"
    proof
      assume "fst e = snd e"
      with ge have "(fst e, fst e) \<in> ?G\<^sup>+" by (metis r_into_trancl')
      with nocyc[OF re] show False by simp
    qed
    then have "the (tree_id (fst e)) \<noteq> the (tree_id (snd e))" using a(2,4) by metis
    then show "fst (edge_ids tree_id e) < length V \<and> snd (edge_ids tree_id e) < length V
                \<and> fst (edge_ids tree_id e) \<noteq> snd (edge_ids tree_id e)
                \<and> V ! fst (edge_ids tree_id e) = fst e \<and> V ! snd (edge_ids tree_id e) = snd e"
      using a by (simp add: edge_ids_def)
  qed
  have ac: "acyclic (set E1)"
    unfolding acyclic_def
  proof (intro allI notI)
    fix x assume x: "(x, x) \<in> (set E1)\<^sup>+"
    then obtain z where "(x, z) \<in> set E1" by (meson tranclD)
    then have "(r, x) \<in> ?G\<^sup>*" using sE by auto
    moreover have "set E1 \<subseteq> ?G" using sE by auto
    then have "(x, x) \<in> ?G\<^sup>+" using x by (meson trancl_mono)
    ultimately show False using nocyc by blast
  qed
  show ?thesis
    by (intro exI[of _ E1] conjI) (rule t dE dS props sE ac)+
qed


text \<open>
  Claim C2, as amended. Let the list of paths be non-empty with a non-empty
  first path, whose first vertex is the root. Assume that, over all pairs of
  consecutive path vertices, no vertex has two different predecessors and the
  root has none, as when all paths are chains of one tree of parents, from
  the root outwards, without repeated vertices. Then path\_union returns
  (with fuel above the number of pairs); every voxel that occurs in a pair
  appears exactly once in the vertex array; no edge is emitted twice, no edge
  joins a vertex to itself, every edge joins two positions of the vertex
  array, and no vertex is the second end of two edges. Read as pairs of
  vertices, the edges are exactly the pairs whose first vertex the root
  reaches, and they contain no cycle. When every path starts at the root,
  the edges are all the pairs: common prefixes are emitted once.
\<close>

theorem path_union_tree:
  assumes "paths \<noteq> []" and "hd paths \<noteq> []"
    and "\<forall>(p, c)\<in>set (links paths). \<forall>(p', c')\<in>set (links paths). c = c' \<longrightarrow> p = p'"
    and "hd (hd paths) \<notin> snd ` set (links paths)"
    and "length (links paths) < fuel"
  shows "\<exists>V E. path_union fuel paths = Some (Inr (flatten_vertices V, flatten_edges E))
          \<and> distinct V \<and> set V = fst ` set (links paths) \<union> snd ` set (links paths)
          \<and> distinct E \<and> distinct (map snd E)
          \<and> (\<forall>(a, b)\<in>set E. a < length V \<and> b < length V \<and> a \<noteq> b)
          \<and> set (map (\<lambda>(a, b). (V ! a, V ! b)) E)
              = {(p, c). (p, c) \<in> set (links paths) \<and> (hd (hd paths), p) \<in> (set (links paths))\<^sup>*}
          \<and> acyclic (set (map (\<lambda>(a, b). (V ! a, V ! b)) E))
          \<and> ((\<forall>q\<in>set paths. q \<noteq> [] \<and> hd q = hd (hd paths))
               \<longrightarrow> set (map (\<lambda>(a, b). (V ! a, V ! b)) E) = set (links paths))"
proof -
  let ?L = "links paths" and ?r = "hd (hd paths)"
  obtain tree tree_id V ct where bt: "build_tree paths = (tree, tree_id, V, ct)"
    by (cases "build_tree paths") auto
  then have inv: "tree_inv ?L (tree, tree_id, V, ct)" using build_tree_inv[of paths] by simp
  have sp: "single_parent (set ?L)"
    unfolding single_parent_def using assms(3) by fast
  from path_union_core[OF inv sp assms(4,5)]
  obtain E1 where E1: "traverse fuel tree tree_id [?r] [] = Some (Inr (map (edge_ids tree_id) E1))"
    "distinct (map (edge_ids tree_id) E1)"
    "distinct (map snd (map (edge_ids tree_id) E1))"
    "\<forall>e\<in>set E1. fst (edge_ids tree_id e) < length V \<and> snd (edge_ids tree_id e) < length V
                \<and> fst (edge_ids tree_id e) \<noteq> snd (edge_ids tree_id e)
                \<and> V ! fst (edge_ids tree_id e) = fst e \<and> V ! snd (edge_ids tree_id e) = snd e"
    "set E1 = {(p, c). (p, c) \<in> set ?L \<and> (?r, p) \<in> (set ?L)\<^sup>*}"
    "acyclic (set E1)"
    by blast
  let ?E = "map (edge_ids tree_id) E1"
  obtain rest where hp: "hd paths = ?r # rest" using assms(2) by (cases "hd paths") auto
  then have p0: "paths ! 0 = ?r # rest" using assms(1) by (simp add: hd_conv_nth)
  have pu: "path_union fuel paths = Some (Inr (flatten_vertices V, flatten_edges ?E))"
    using assms(1) bt p0 E1(1) by (simp add: path_union_def)
  from inv have dV: "distinct V" and sV: "set V = fst ` set ?L \<union> snd ` set ?L"
    by (simp_all add: tree_inv_def)
  have rb: "map (\<lambda>(a, b). (V ! a, V ! b)) ?E = E1"
  proof -
    have "(\<lambda>(a, b). (V ! a, V ! b)) (edge_ids tree_id e) = e" if "e \<in> set E1" for e
      using E1(4) that by (simp add: case_prod_unfold)
    then have "map ((\<lambda>(a, b). (V ! a, V ! b)) \<circ> edge_ids tree_id) E1 = map (\<lambda>e. e) E1"
      by (intro map_cong) simp_all
    then show ?thesis by simp
  qed
  have idp: "\<forall>(a, b)\<in>set ?E. a < length V \<and> b < length V \<and> a \<noteq> b"
    using E1(4) by (auto simp: case_prod_unfold)
  have cover: "(\<forall>q\<in>set paths. q \<noteq> [] \<and> hd q = ?r) \<longrightarrow> set E1 = set ?L"
  proof
    assume a: "\<forall>q\<in>set paths. q \<noteq> [] \<and> hd q = ?r"
    have "(?r, p) \<in> (set ?L)\<^sup>*" if "(p, c) \<in> set ?L" for p c
      using a that by (rule links_reached)
    then show "set E1 = set ?L" unfolding E1(5) by auto
  qed
  show ?thesis
    apply (rule exI[of _ V], rule exI[of _ ?E])
    unfolding rb
    using pu dV sV E1(2,3,5,6) idp cover by (intro conjI) assumption+
qed

lemma v_distinct: "distinct [va, vb, vc, vd, ve]"
  by (simp add: va_def vb_def vc_def vd_def ve_def)

theorem path_union_tree_witness:
  "\<exists>V E. path_union 5 [[va, vb, vc], [va, vb, vd]] = Some (Inr (flatten_vertices V, flatten_edges E))
          \<and> distinct V \<and> distinct E \<and> distinct (map snd E)
          \<and> acyclic (set (map (\<lambda>(a, b). (V ! a, V ! b)) E))
          \<and> set (map (\<lambda>(a, b). (V ! a, V ! b)) E) = set (links [[va, vb, vc], [va, vb, vd]])"
proof -
  let ?paths = "[[va, vb, vc], [va, vb, vd]]"
  have l: "links ?paths = [(va, vb), (vb, vc), (va, vb), (vb, vd)]" by (simp add: links_def)
  have 1: "?paths \<noteq> []" and 2: "hd ?paths \<noteq> []" by simp_all
  have 3: "\<forall>(p, c)\<in>set (links ?paths). \<forall>(p', c')\<in>set (links ?paths). c = c' \<longrightarrow> p = p'"
    unfolding l using v_distinct by auto
  have 4: "hd (hd ?paths) \<notin> snd ` set (links ?paths)"
    unfolding l using v_distinct by auto
  have 5: "length (links ?paths) < 5" unfolding l by simp
  have 6: "\<forall>q\<in>set ?paths. q \<noteq> [] \<and> hd q = hd (hd ?paths)" by simp
  from path_union_tree[OF 1 2 3 4 5] 6 show ?thesis by blast
qed


lemma traverse_self_loop:
  assumes "tree a = [a]" "tree_id a = Some i"
  shows "traverse fuel tree tree_id (a # stack) E = None"
proof (induction fuel arbitrary: stack E)
  case 0
  then show ?case by simp
next
  case (Suc fuel)
  have "traverse (Suc fuel) tree tree_id (a # stack) E
        = traverse fuel tree tree_id (a # stack) (E @ [(i, i)])"
    using assms by simp
  then show ?case using Suc.IH by simp
qed

lemma path_union_self_loop: "path_union fuel [[a, a]] = None"
proof -
  have bt: "build_tree [[a, a]] = ((\<lambda>v. [])(a := [a]), [a \<mapsto> 0], [a], 1)"
    by (simp add: build_tree_links links_def add_link_def register_vertex_def)
  have "traverse fuel ((\<lambda>v. [])(a := [a])) [a \<mapsto> 0] (a # []) [] = None"
    by (rule traverse_self_loop[where i = 0]) simp_all
  then show ?thesis using bt by (simp add: path_union_def)
qed

lemma build_tree_prefix_paths:
  "build_tree [[va, vc], [va, vb, vc, ve]]
   = ((\<lambda>v. [])(va := [vc, vb], vb := [vc], vc := [ve]),
      [va \<mapsto> 0, vc \<mapsto> 1, vb \<mapsto> 2, ve \<mapsto> 3], [va, vc, vb, ve], 4)"
proof -
  have l: "links [[va, vc], [va, vb, vc, ve]] = [(va, vc), (va, vb), (vb, vc), (vc, ve)]"
    by (simp add: links_def)
  have d: "va \<noteq> vb" "va \<noteq> vc" "va \<noteq> ve" "vb \<noteq> vc" "vb \<noteq> ve" "vc \<noteq> ve"
    "vb \<noteq> va" "vc \<noteq> va" "ve \<noteq> va" "vc \<noteq> vb" "ve \<noteq> vb" "ve \<noteq> vc"
    using v_distinct by auto
  show ?thesis
    unfolding build_tree_links l using d
    by (simp add: add_link_def register_vertex_def fun_upd_twist eval_nat_numeral)
qed

text \<open>
  As stated, for every non-empty list of paths, C2 fails in three ways. The
  voxel of a path of a single vertex does not appear in the vertex array.
  The paths \<open>[a, b, c]\<close> and \<open>[a, b, c, d, e]\<close> are downsampled with stride 1
  to \<open>[a, c]\<close> and \<open>[a, b, c, e]\<close>; their union has the edges \<open>a-c\<close>, \<open>a-b\<close>
  and \<open>b-c\<close>, a cycle, and the edge \<open>c-e\<close> twice. A path that repeats a vertex
  gives the vertex itself as its child, and the traversal never ends.
\<close>

theorem path_union_not_a_tree:
  "path_union 1 [[(5, 5, 5)]] = Some (Inr ([], []))
   \<and> downsample_all 1 [[va, vb, vc], [va, vb, vc, vd, ve]] = Inr [[va, vc], [va, vb, vc, ve]]
   \<and> path_union 6 [[va, vc], [va, vb, vc, ve]]
       = Some (Inr (flatten_vertices [va, vc, vb, ve],
                    flatten_edges [(0, 1), (0, 2), (2, 1), (1, 3), (1, 3)]))
   \<and> (\<forall>fuel. path_union fuel [[va, va]] = None)"
proof (intro conjI allI)
  show "path_union 1 [[(5, 5, 5)]] = Some (Inr ([], []))"
    using path_union_single_vertex[of 0 "(5, 5, 5)"] by simp
  show "downsample_all 1 [[va, vb, vc], [va, vb, vc, vd, ve]] = Inr [[va, vc], [va, vb, vc, ve]]"
    by (simp add: downsample_def py_slice_def adjust_index_def slice_length_def upt_rec)
  show "path_union fuel [[va, va]] = None" for fuel by (rule path_union_self_loop)
  have d: "va \<noteq> vb" "va \<noteq> vc" "va \<noteq> ve" "vb \<noteq> vc" "vb \<noteq> ve" "vc \<noteq> ve"
    "vb \<noteq> va" "vc \<noteq> va" "ve \<noteq> va" "vc \<noteq> vb" "ve \<noteq> vb" "ve \<noteq> vc"
    using v_distinct by auto
  have six: "(6::nat) = Suc (Suc (Suc (Suc (Suc (Suc 0)))))" by simp
  have "traverse 6 ((\<lambda>v. [])(va := [vc, vb], vb := [vc], vc := [ve]))
          [va \<mapsto> 0, vc \<mapsto> 1, vb \<mapsto> 2, ve \<mapsto> 3] [va] []
        = Some (Inr [(0, 1), (0, 2), (2, 1), (1, 3), (1, 3)])"
    unfolding six using d by simp
  then show "path_union 6 [[va, vc], [va, vb, vc, ve]]
       = Some (Inr (flatten_vertices [va, vc, vb, ve],
                    flatten_edges [(0, 1), (0, 2), (2, 1), (1, 3), (1, 3)]))"
    by (simp add: path_union_def build_tree_prefix_paths)
qed

end
